theory Spec2Isabelle
  imports Main "HOL-Library.Word"
begin

unbundle bit_operations_syntax

section \<open>Signals\<close>

text \<open>
  The design is a synchronous circuit description.  A \<open>Signal(w)\<close> is a \<open>w word\<close>
  (arithmetic wraps at the signal's width, as in the generated hardware), a one-bit
  signal is a \<open>bool\<close>.  Every state machine is a step function: from the registers and
  the inputs of one line-domain cycle to the combinational outputs of that cycle and
  the registers after the clock edge.  Inside one \<open>fsm.act\<close> the last \<open>NextValue\<close> or
  \<open>NextState\<close> that applies wins.
\<close>

type_synonym u8 = "8 word"
type_synonym u10 = "10 word"
type_synonym u32 = "32 word"

section \<open>SDPHYClocker\<close>

text \<open>
  \<open>cases\<close> is the dictionary built by the loop \<open>for i in range(1, 8): cases[2**i] = ...
  divider[i-1]\<close>: it maps the divider register to the index of the counter bit that
  becomes the line clock.  The \<open>"default"\<close> entry taps bit 0.
\<close>

definition cases :: "(u8 \<times> nat) list" where
  "cases = map (\<lambda>i. (2 ^ i, i - 1)) [1..<8]"

definition clk_tap :: "u8 \<Rightarrow> nat" where
  "clk_tap storage = (case map_of cases storage of None \<Rightarrow> 0 | Some k \<Rightarrow> k)"

text \<open>\<open>Case(self.divider.storage, cases)\<close>: the clock is the tapped bit of the counter.\<close>

definition cd_sd_clk :: "u8 \<Rightarrow> u8 \<Rightarrow> bool" where
  "cd_sd_clk storage divider = bit divider (clk_tap storage)"

text \<open>\<open>self.sync += divider.eq(divider + 1)\<close>, from the reset value 0: the counter after
  \<open>n\<close> base-clock cycles.\<close>

fun divider_after :: "nat \<Rightarrow> u8" where
  "divider_after 0 = 0"
| "divider_after (Suc n) = divider_after n + 1"

definition sd_clk_at :: "u8 \<Rightarrow> nat \<Rightarrow> bool" where
  "sd_clk_at storage n = cd_sd_clk storage (divider_after n)"


text \<open>A clock that starts low and toggles every \<open>h\<close> base-clock cycles: its period is
  \<open>2 * h\<close> base cycles, its frequency the base frequency divided by \<open>2 * h\<close>.\<close>

definition square_wave :: "nat \<Rightarrow> nat \<Rightarrow> bool" where
  "square_wave h n = odd (n div h)"

section \<open>Pads and streams\<close>

text \<open>The \<open>pads_out\<close> side of \<open>_sdpads_layout\<close>.  A signal that no statement of the active
  state assigns has its reset value 0.\<close>

record pads_out =
  clk :: bool
  cmd_oe :: bool
  cmd_o :: bool
  data_oe :: bool
  data_o :: "4 word"

definition pads_none :: pads_out where
  "pads_none = \<lparr>clk = False, cmd_oe = False, cmd_o = False, data_oe = False, data_o = 0\<rparr>"

text \<open>The line-domain end of a byte stream \<open>[("data", 8)]\<close> with its \<open>last\<close> marker.\<close>

record sink8 =
  sink_valid :: bool
  sink_data :: u8
  sink_last :: bool

text \<open>
  Modelled from the spec: the status constants \<open>SDCARD_STREAM_STATUS_OK\<close> and
  \<open>SDCARD_STREAM_STATUS_TIMEOUT\<close> are declared in \<open>litesdcard.common\<close>, which is not part
  of the source tree; the spec names the two tags \<open>OK\<close> and \<open>TIMEOUT\<close>.  A status that
  no statement assigns is the reset value, \<open>OK\<close>.
\<close>

datatype status = SDCARD_STREAM_STATUS_OK | SDCARD_STREAM_STATUS_TIMEOUT

text \<open>The result stream \<open>[("data", 8), ("status", 3)]\<close> of the two readers.\<close>

record source_out =
  source_valid :: bool
  source_data :: u8
  source_status :: status
  source_last :: bool

definition source_none :: source_out where
  "source_none = \<lparr>source_valid = False, source_data = 0,
     source_status = SDCARD_STREAM_STATUS_OK, source_last = False\<rparr>"

section \<open>SDPHYR: the bit stream reader\<close>

text \<open>
  Modelled from the spec: \<open>stream.Converter\<close> and \<open>stream.Buffer\<close> belong to the stream
  library the design imports and are not part of the source tree.  The spec says that
  every sample of \<open>width\<close> bits is packed, most-significant-bit-first across cycles,
  into 8-bit output bytes emitted through a one-deep buffer.  The converter gathers
  \<open>8 div width\<close> samples: sample number \<open>demux\<close> is stored in the slice
  \<open>ratio - demux - 1\<close> (\<open>reverse=True\<close>), and \<open>strobe_all\<close> marks a complete byte.  It
  accepts a sample unless a complete byte is waiting that the buffer cannot take.
  The buffer is one register stage: it loads when it is empty or being read.
\<close>

definition set_slice :: "nat \<Rightarrow> nat \<Rightarrow> u8 \<Rightarrow> u8 \<Rightarrow> u8" where
  "set_slice lo w v x = (x AND NOT (push_bit lo (mask w))) OR push_bit lo (take_bit w v)"

record converter_regs =
  demux :: nat
  strobe_all :: bool
  conv_data :: u8

definition converter_sink_ready :: "converter_regs \<Rightarrow> bool \<Rightarrow> bool" where
  "converter_sink_ready c source_ready = (\<not> strobe_all c \<or> source_ready)"

definition converter_step :: "nat \<Rightarrow> converter_regs \<Rightarrow> bool \<Rightarrow> u8 \<Rightarrow> bool \<Rightarrow> converter_regs" where
  "converter_step w c valid d source_ready =
     (let ratio = 8 div w;
          load_part = (valid \<and> converter_sink_ready c source_ready);
          demux_last = (demux c = ratio - 1);
          n = ratio - demux c - 1
      in \<lparr>demux = (if load_part then (if demux_last then 0 else demux c + 1) else demux c),
          strobe_all = (if load_part \<and> demux_last then True
                        else if source_ready then False else strobe_all c),
          conv_data = (if load_part then set_slice (n * w) w d (conv_data c)
                       else conv_data c)\<rparr>)"

record buffer_regs =
  buf_valid :: bool
  buf_data :: u8

definition buffer_sink_ready :: "buffer_regs \<Rightarrow> bool \<Rightarrow> bool" where
  "buffer_sink_ready b source_ready = (\<not> buf_valid b \<or> source_ready)"

definition buffer_step :: "buffer_regs \<Rightarrow> bool \<Rightarrow> u8 \<Rightarrow> bool \<Rightarrow> buffer_regs" where
  "buffer_step b valid d source_ready =
     (if buffer_sink_ready b source_ready then \<lparr>buf_valid = valid, buf_data = d\<rparr> else b)"

text \<open>The constructor arguments of \<open>SDPHYR\<close>.\<close>

record sdphyr_cfg =
  cmd :: bool
  data_width :: nat
  skip_start_bit :: bool

record sdphyr_regs =
  run :: bool
  converter :: converter_regs
  buf :: buffer_regs

text \<open>The value every register takes when the inserted \<open>reset\<close> is high at a clock edge.\<close>

definition sdphyr_reset :: sdphyr_regs where
  "sdphyr_reset = \<lparr>run = False,
     converter = \<lparr>demux = 0, strobe_all = False, conv_data = 0\<rparr>,
     buf = \<lparr>buf_valid = False, buf_data = 0\<rparr>\<rparr>"

text \<open>\<open>pads_in.cmd.i[:data_width] if cmd else pads_in.data.i[:data_width]\<close>\<close>

definition pads_in_data :: "sdphyr_cfg \<Rightarrow> bool \<Rightarrow> 4 word \<Rightarrow> u8" where
  "pads_in_data cfg cmd_i data_i =
     (if cmd cfg then take_bit (data_width cfg) (of_bool cmd_i)
      else take_bit (data_width cfg) (ucast data_i))"

text \<open>\<open>start.eq(pads_in_data == 0)\<close>\<close>

definition start :: "sdphyr_cfg \<Rightarrow> bool \<Rightarrow> 4 word \<Rightarrow> bool" where
  "start cfg cmd_i data_i = (pads_in_data cfg cmd_i data_i = 0)"

text \<open>The reader's output is the buffer's output.\<close>

definition sdphyr_source_valid :: "sdphyr_regs \<Rightarrow> bool" where
  "sdphyr_source_valid r = buf_valid (buf r)"

definition sdphyr_source_data :: "sdphyr_regs \<Rightarrow> u8" where
  "sdphyr_source_data r = buf_data (buf r)"

text \<open>One line-domain clock edge of the reader: \<open>reset\<close> is the inserted reset,
  \<open>cmd_i\<close> and \<open>data_i\<close> the sampled lines, \<open>source_ready\<close> the consumer's ready.\<close>

definition SDPHYR :: "sdphyr_cfg \<Rightarrow> sdphyr_regs \<Rightarrow> bool \<Rightarrow> bool \<Rightarrow> 4 word \<Rightarrow> bool \<Rightarrow> sdphyr_regs" where
  "SDPHYR cfg r reset cmd_i data_i source_ready =
     (let d = pads_in_data cfg cmd_i data_i;
          st = start cfg cmd_i data_i;
          valid = (if skip_start_bit cfg then run r else st \<or> run r)
      in if reset then sdphyr_reset
         else \<lparr>run = (st \<or> run r),
               converter = converter_step (data_width cfg) (converter r) valid d
                             (buffer_sink_ready (buf r) source_ready),
               buf = buffer_step (buf r) (strobe_all (converter r)) (conv_data (converter r))
                       source_ready\<rparr>)"

section \<open>SDPHYInit\<close>

datatype init_state = INIT_IDLE | INIT_INITIALIZE

record init_regs =
  init_state :: init_state
  init_count :: u8

definition init_reset :: init_regs where
  "init_reset = \<lparr>init_state = INIT_IDLE, init_count = 0\<rparr>"

definition SDPHYInit :: "init_regs \<Rightarrow> bool \<Rightarrow> pads_out \<times> init_regs" where
  "SDPHYInit s ps_initialize_o =
     (case init_state s of
        INIT_IDLE \<Rightarrow>
          (pads_none,
           \<lparr>init_state = (if ps_initialize_o then INIT_INITIALIZE else INIT_IDLE),
            init_count = 0\<rparr>)
      | INIT_INITIALIZE \<Rightarrow>
          (\<lparr>clk = True, cmd_oe = True, cmd_o = True, data_oe = True, data_o = 15\<rparr>,
           \<lparr>init_state = (if init_count s = 80 - 1 then INIT_IDLE else INIT_INITIALIZE),
            init_count = init_count s + 1\<rparr>))"

section \<open>SDPHYCMDW: the command writer\<close>

datatype cmdw_state = CMDW_IDLE | CMDW_WRITE | CMDW_CLK8

record cmdw_regs =
  cmdw_state :: cmdw_state
  cmdw_count :: u8

definition cmdw_reset :: cmdw_regs where
  "cmdw_reset = \<lparr>cmdw_state = CMDW_IDLE, cmdw_count = 0\<rparr>"

record cmdw_out =
  cmdw_pads :: pads_out
  cmdw_sink_ready :: bool
  cmdw_done :: bool

text \<open>\<open>Case(count, {i: pads_out.cmd.o.eq(sink.data[8-1-i]) for i in range(8)})\<close>: no case
  applies to a count of 8 or more, and the output keeps its reset value.\<close>

definition cmdw_bit :: "u8 \<Rightarrow> u8 \<Rightarrow> bool" where
  "cmdw_bit count d = (unat count < 8 \<and> bit d (8 - 1 - unat count))"

definition SDPHYCMDW :: "cmdw_regs \<Rightarrow> sink8 \<Rightarrow> cmdw_out \<times> cmdw_regs" where
  "SDPHYCMDW s sink =
     (case cmdw_state s of
        CMDW_IDLE \<Rightarrow>
          (\<lparr>cmdw_pads = pads_none, cmdw_sink_ready = False, cmdw_done = (\<not> sink_valid sink)\<rparr>,
           \<lparr>cmdw_state = (if sink_valid sink then CMDW_WRITE else CMDW_IDLE),
            cmdw_count = 0\<rparr>)
      | CMDW_WRITE \<Rightarrow>
          (\<lparr>cmdw_pads = pads_none\<lparr>clk := True, cmd_oe := True,
                                   cmd_o := cmdw_bit (cmdw_count s) (sink_data sink)\<rparr>,
            cmdw_sink_ready = (cmdw_count s = 8 - 1 \<and> \<not> sink_last sink),
            cmdw_done = False\<rparr>,
           \<lparr>cmdw_state = (if cmdw_count s = 8 - 1
                           then (if sink_last sink then CMDW_CLK8 else CMDW_IDLE)
                           else CMDW_WRITE),
            cmdw_count = cmdw_count s + 1\<rparr>)
      | CMDW_CLK8 \<Rightarrow>
          (\<lparr>cmdw_pads = pads_none\<lparr>clk := True, cmd_oe := True, cmd_o := True\<rparr>,
            cmdw_sink_ready = (cmdw_count s = 8 - 1),
            cmdw_done = False\<rparr>,
           \<lparr>cmdw_state = (if cmdw_count s = 8 - 1 then CMDW_IDLE else CMDW_CLK8),
            cmdw_count = cmdw_count s + 1\<rparr>))"


section \<open>SDPHYCMDR: the command reader\<close>

datatype cmdr_state = CMDR_IDLE | CMDR_WAIT | CMDR_CMD | CMDR_CLK8 | CMDR_TIMEOUT

text \<open>\<open>cmdr_reset\<close> is the register \<open>cmdr.reset\<close> that drives the reader's inserted reset.\<close>

record cmdr_regs =
  cmdr_state :: cmdr_state
  cmdr_timeout :: u32
  cmdr_count :: u8
  cmdr_reset :: bool

text \<open>The request stream \<open>[("length", 8)]\<close>, the writer's \<open>done\<close> and the result
  stream's \<open>ready\<close>.\<close>

record cmdr_in =
  cmdr_sink_valid :: bool
  cmdr_sink_length :: u8
  cmdr_sink_last :: bool
  cmdr_cmdw_done :: bool
  cmdr_source_ready :: bool

text \<open>\<open>cmdr_reader_ready\<close> is \<open>cmdr.source.ready\<close>, the ready the machine gives its reader.\<close>

record cmdr_out =
  cmdr_pads :: pads_out
  cmdr_sink_ready :: bool
  cmdr_source :: source_out
  cmdr_reader_ready :: bool

text \<open>
  The state machine alone: \<open>treset\<close> is \<open>timeout.reset\<close>, computed at construction as
  \<open>int(cmd_timeout*sys_clk_freq)\<close>; \<open>rvalid\<close> and \<open>rdata\<close> are the reader's output
  \<open>cmdr.source\<close>.  The comparison \<open>count == (sink.length - 1)\<close> is between 8-bit
  signals and is evaluated at 8 bits in the generated hardware.
\<close>

definition SDPHYCMDR_fsm :: "u32 \<Rightarrow> cmdr_regs \<Rightarrow> cmdr_in \<Rightarrow> bool \<Rightarrow> u8 \<Rightarrow> cmdr_out \<times> cmdr_regs" where
  "SDPHYCMDR_fsm treset s i rvalid rdata =
     (case cmdr_state s of
        CMDR_IDLE \<Rightarrow>
          (let go = (cmdr_sink_valid i \<and> cmdr_cmdw_done i)
           in (\<lparr>cmdr_pads = pads_none, cmdr_sink_ready = False, cmdr_source = source_none,
                cmdr_reader_ready = False\<rparr>,
               \<lparr>cmdr_state = (if go then CMDR_WAIT else CMDR_IDLE),
                cmdr_timeout = treset,
                cmdr_count = 0,
                cmdr_reset = (if go then True else cmdr_reset s)\<rparr>))
      | CMDR_WAIT \<Rightarrow>
          (\<lparr>cmdr_pads = pads_none\<lparr>clk := True\<rparr>,
            cmdr_sink_ready = (cmdr_timeout s = 0),
            cmdr_source = source_none,
            cmdr_reader_ready = False\<rparr>,
           \<lparr>cmdr_state = (if cmdr_timeout s = 0 then CMDR_TIMEOUT
                           else if rvalid then CMDR_CMD else CMDR_WAIT),
            cmdr_timeout = cmdr_timeout s - 1,
            cmdr_count = cmdr_count s,
            cmdr_reset = False\<rparr>)
      | CMDR_CMD \<Rightarrow>
          (let last = (cmdr_count s = cmdr_sink_length i - 1);
               xfer = (rvalid \<and> cmdr_source_ready i)
           in (\<lparr>cmdr_pads = pads_none\<lparr>clk := True\<rparr>,
                cmdr_sink_ready = ((xfer \<and> last) \<or> cmdr_timeout s = 0),
                cmdr_source = \<lparr>source_valid = rvalid, source_data = rdata,
                                source_status = SDCARD_STREAM_STATUS_OK, source_last = last\<rparr>,
                cmdr_reader_ready = xfer\<rparr>,
               \<lparr>cmdr_state = (if cmdr_timeout s = 0 then CMDR_TIMEOUT
                               else if xfer \<and> last
                                    then (if cmdr_sink_last i then CMDR_CLK8 else CMDR_IDLE)
                               else CMDR_CMD),
                cmdr_timeout = cmdr_timeout s - 1,
                cmdr_count = (if xfer then (if last \<and> cmdr_sink_last i then 0
                                            else cmdr_count s + 1)
                              else cmdr_count s),
                cmdr_reset = cmdr_reset s\<rparr>))
      | CMDR_CLK8 \<Rightarrow>
          (\<lparr>cmdr_pads = pads_none\<lparr>clk := True, cmd_oe := True, cmd_o := True\<rparr>,
            cmdr_sink_ready = False, cmdr_source = source_none, cmdr_reader_ready = False\<rparr>,
           \<lparr>cmdr_state = (if cmdr_count s = 8 - 1 then CMDR_IDLE else CMDR_CLK8),
            cmdr_timeout = cmdr_timeout s,
            cmdr_count = cmdr_count s + 1,
            cmdr_reset = cmdr_reset s\<rparr>)
      | CMDR_TIMEOUT \<Rightarrow>
          (\<lparr>cmdr_pads = pads_none, cmdr_sink_ready = False,
            cmdr_source = \<lparr>source_valid = True, source_data = 0,
                            source_status = SDCARD_STREAM_STATUS_TIMEOUT, source_last = True\<rparr>,
            cmdr_reader_ready = False\<rparr>,
           \<lparr>cmdr_state = (if cmdr_source_ready i then CMDR_IDLE else CMDR_TIMEOUT),
            cmdr_timeout = cmdr_timeout s,
            cmdr_count = cmdr_count s,
            cmdr_reset = cmdr_reset s\<rparr>))"

text \<open>\<open>SDPHYR(cmd=True, data_width=1, skip_start_bit=False)\<close>\<close>

definition cmdr_cfg :: sdphyr_cfg where
  "cmdr_cfg = \<lparr>cmd = True, data_width = 1, skip_start_bit = False\<rparr>"

text \<open>The command reader with its embedded reader: one clock edge of both.\<close>

definition SDPHYCMDR ::
  "u32 \<Rightarrow> cmdr_regs \<times> sdphyr_regs \<Rightarrow> cmdr_in \<Rightarrow> bool \<Rightarrow> 4 word
     \<Rightarrow> cmdr_out \<times> (cmdr_regs \<times> sdphyr_regs)" where
  "SDPHYCMDR treset sr i cmd_i data_i =
     (let (s, r) = sr;
          (out, s') = SDPHYCMDR_fsm treset s i (sdphyr_source_valid r) (sdphyr_source_data r)
      in (out, (s', SDPHYR cmdr_cfg r (cmdr_reset s) cmd_i data_i (cmdr_reader_ready out))))"

definition cmdr_regs_reset :: "u32 \<Rightarrow> cmdr_regs" where
  "cmdr_regs_reset treset =
     \<lparr>cmdr_state = CMDR_IDLE, cmdr_timeout = treset, cmdr_count = 0, cmdr_reset = False\<rparr>"

section \<open>SDPHYCRCR: the CRC response decoder\<close>

datatype crcr_state = CRCR_IDLE | CRCR_WAIT_CHECK

record crcr_regs =
  crcr_state :: crcr_state
  crcr_reset :: bool

record crcr_out =
  crcr_valid :: bool
  crcr_error :: bool
  crcr_reader_ready :: bool

definition SDPHYCRCR_fsm :: "crcr_regs \<Rightarrow> bool \<Rightarrow> bool \<Rightarrow> u8 \<Rightarrow> crcr_out \<times> crcr_regs" where
  "SDPHYCRCR_fsm s start_pulse rvalid rdata =
     (case crcr_state s of
        CRCR_IDLE \<Rightarrow>
          (\<lparr>crcr_valid = False, crcr_error = False, crcr_reader_ready = False\<rparr>,
           \<lparr>crcr_state = (if start_pulse then CRCR_WAIT_CHECK else CRCR_IDLE),
            crcr_reset = (if start_pulse then True else crcr_reset s)\<rparr>)
      | CRCR_WAIT_CHECK \<Rightarrow>
          (\<lparr>crcr_valid = (rvalid \<and> rdata \<noteq> 5),
            crcr_error = (rvalid \<and> rdata = 5),
            crcr_reader_ready = True\<rparr>,
           \<lparr>crcr_state = (if rvalid then CRCR_IDLE else CRCR_WAIT_CHECK),
            crcr_reset = False\<rparr>))"

text \<open>\<open>SDPHYR(data=True, data_width=1, skip_start_bit=True)\<close>\<close>

definition crcr_cfg :: sdphyr_cfg where
  "crcr_cfg = \<lparr>cmd = False, data_width = 1, skip_start_bit = True\<rparr>"

definition SDPHYCRCR ::
  "crcr_regs \<times> sdphyr_regs \<Rightarrow> bool \<Rightarrow> bool \<Rightarrow> 4 word \<Rightarrow> crcr_out \<times> (crcr_regs \<times> sdphyr_regs)" where
  "SDPHYCRCR sr start_pulse cmd_i data_i =
     (let (s, r) = sr;
          (out, s') = SDPHYCRCR_fsm s start_pulse (sdphyr_source_valid r) (sdphyr_source_data r)
      in (out, (s', SDPHYR crcr_cfg r (crcr_reset s) cmd_i data_i (crcr_reader_ready out))))"

definition crcr_regs_reset :: crcr_regs where
  "crcr_regs_reset = \<lparr>crcr_state = CRCR_IDLE, crcr_reset = False\<rparr>"

section \<open>SDPHYDATAW: the data writer\<close>

datatype dataw_state = DATAW_IDLE | DATAW_START | DATAW_DATA | DATAW_STOP | DATAW_RESPONSE

record dataw_regs =
  dataw_state :: dataw_state
  wrstarted :: bool
  dataw_count :: u8

record dataw_out =
  dataw_pads :: pads_out
  dataw_sink_ready :: bool
  crc_start :: bool

text \<open>\<open>sink.data[4:8]\<close> and \<open>sink.data[0:4]\<close>\<close>

definition high_nibble :: "u8 \<Rightarrow> 4 word" where
  "high_nibble d = ucast (drop_bit 4 d)"

definition low_nibble :: "u8 \<Rightarrow> 4 word" where
  "low_nibble d = ucast d"

definition SDPHYDATAW_fsm :: "dataw_regs \<Rightarrow> sink8 \<Rightarrow> 4 word \<Rightarrow> dataw_out \<times> dataw_regs" where
  "SDPHYDATAW_fsm s sink data_i =
     (case dataw_state s of
        DATAW_IDLE \<Rightarrow>
          (if sink_valid sink
           then (\<lparr>dataw_pads = pads_none\<lparr>clk := True, data_oe := True,
                     data_o := (if wrstarted s then high_nibble (sink_data sink) else 0)\<rparr>,
                  dataw_sink_ready = False, crc_start = False\<rparr>,
                 s\<lparr>dataw_state := (if wrstarted s then DATAW_DATA else DATAW_START)\<rparr>)
           else (\<lparr>dataw_pads = pads_none, dataw_sink_ready = False, crc_start = False\<rparr>, s))
      | DATAW_START \<Rightarrow>
          (\<lparr>dataw_pads = pads_none\<lparr>clk := True, data_oe := True,
                                    data_o := high_nibble (sink_data sink)\<rparr>,
            dataw_sink_ready = False, crc_start = False\<rparr>,
           s\<lparr>dataw_state := DATAW_DATA, wrstarted := True\<rparr>)
      | DATAW_DATA \<Rightarrow>
          (\<lparr>dataw_pads = pads_none\<lparr>clk := True, data_oe := True,
                                    data_o := low_nibble (sink_data sink)\<rparr>,
            dataw_sink_ready = (\<not> sink_last sink), crc_start = False\<rparr>,
           s\<lparr>dataw_state := (if sink_last sink then DATAW_STOP else DATAW_IDLE)\<rparr>)
      | DATAW_STOP \<Rightarrow>
          (\<lparr>dataw_pads = pads_none\<lparr>clk := True, data_oe := True, data_o := 15\<rparr>,
            dataw_sink_ready = False, crc_start = True\<rparr>,
           s\<lparr>dataw_state := DATAW_RESPONSE, wrstarted := False\<rparr>)
      | DATAW_RESPONSE \<Rightarrow>
          (if dataw_count s < 16
           then (\<lparr>dataw_pads = pads_none\<lparr>clk := True\<rparr>, dataw_sink_ready = False,
                  crc_start = False\<rparr>,
                 s\<lparr>dataw_count := dataw_count s + 1\<rparr>)
           else if bit data_i 0
           then (\<lparr>dataw_pads = pads_none\<lparr>clk := True\<rparr>, dataw_sink_ready = True,
                  crc_start = False\<rparr>,
                 s\<lparr>dataw_state := DATAW_IDLE, dataw_count := 0\<rparr>)
           else (\<lparr>dataw_pads = pads_none\<lparr>clk := True\<rparr>, dataw_sink_ready = False,
                  crc_start = False\<rparr>, s)))"

definition dataw_regs_reset :: dataw_regs where
  "dataw_regs_reset = \<lparr>dataw_state = DATAW_IDLE, wrstarted = False, dataw_count = 0\<rparr>"

text \<open>The data writer with its CRC response decoder (\<open>crc = SDPHYCRCR()\<close>).\<close>

definition SDPHYDATAW ::
  "dataw_regs \<times> (crcr_regs \<times> sdphyr_regs) \<Rightarrow> sink8 \<Rightarrow> bool \<Rightarrow> 4 word
     \<Rightarrow> dataw_out \<times> (dataw_regs \<times> (crcr_regs \<times> sdphyr_regs))" where
  "SDPHYDATAW sc sink cmd_i data_i =
     (let (s, c) = sc;
          (out, s') = SDPHYDATAW_fsm s sink data_i;
          (cout, c') = SDPHYCRCR c (crc_start out) cmd_i data_i
      in (out, (s', c')))"

section \<open>SDPHYDATAR: the data reader\<close>

datatype datar_state = DATAR_IDLE | DATAR_WAIT | DATAR_DATA | DATAR_CLK40 | DATAR_TIMEOUT

record datar_regs =
  datar_state :: datar_state
  datar_timeout :: u32
  datar_count :: u10
  datar_reset :: bool

record datar_in =
  datar_sink_valid :: bool
  datar_sink_block_length :: u10
  datar_sink_last :: bool
  datar_source_ready :: bool

record datar_out =
  datar_pads :: pads_out
  datar_sink_ready :: bool
  datar_source :: source_out
  datar_reader_ready :: bool

text \<open>
  The state machine alone: \<open>treset\<close> is \<open>int(data_timeout*sys_clk_freq)\<close>.  The
  comparison \<open>count == (sink.block_length + 8 - 1)\<close> is between 10-bit signals and is
  evaluated at 10 bits in the generated hardware.
\<close>

definition SDPHYDATAR_fsm :: "u32 \<Rightarrow> datar_regs \<Rightarrow> datar_in \<Rightarrow> bool \<Rightarrow> u8 \<Rightarrow> datar_out \<times> datar_regs" where
  "SDPHYDATAR_fsm treset s i rvalid rdata =
     (case datar_state s of
        DATAR_IDLE \<Rightarrow>
          (if datar_sink_valid i
           then (\<lparr>datar_pads = pads_none\<lparr>clk := True\<rparr>, datar_sink_ready = False,
                  datar_source = source_none, datar_reader_ready = False\<rparr>,
                 \<lparr>datar_state = DATAR_WAIT, datar_timeout = treset, datar_count = 0,
                  datar_reset = True\<rparr>)
           else (\<lparr>datar_pads = pads_none, datar_sink_ready = False,
                  datar_source = source_none, datar_reader_ready = False\<rparr>,
                 s\<lparr>datar_count := 0\<rparr>))
      | DATAR_WAIT \<Rightarrow>
          (\<lparr>datar_pads = pads_none\<lparr>clk := True\<rparr>,
            datar_sink_ready = (datar_timeout s = 0),
            datar_source = source_none,
            datar_reader_ready = False\<rparr>,
           \<lparr>datar_state = (if datar_timeout s = 0 then DATAR_TIMEOUT
                            else if rvalid then DATAR_DATA else DATAR_WAIT),
            datar_timeout = datar_timeout s - 1,
            datar_count = datar_count s,
            datar_reset = False\<rparr>)
      | DATAR_DATA \<Rightarrow>
          (let last = (datar_count s = datar_sink_block_length i + 8 - 1);
               xfer = (rvalid \<and> datar_source_ready i)
           in (\<lparr>datar_pads = pads_none\<lparr>clk := True\<rparr>,
                datar_sink_ready = ((xfer \<and> last) \<or> datar_timeout s = 0),
                datar_source = \<lparr>source_valid = rvalid, source_data = rdata,
                                 source_status = SDCARD_STREAM_STATUS_OK, source_last = last\<rparr>,
                datar_reader_ready = xfer\<rparr>,
               \<lparr>datar_state = (if datar_timeout s = 0 then DATAR_TIMEOUT
                                else if xfer \<and> last
                                     then (if datar_sink_last i then DATAR_CLK40 else DATAR_IDLE)
                                else DATAR_DATA),
                datar_timeout = datar_timeout s - 1,
                datar_count = (if xfer then (if last \<and> datar_sink_last i then 0
                                             else datar_count s + 1)
                               else datar_count s),
                datar_reset = datar_reset s\<rparr>))
      | DATAR_CLK40 \<Rightarrow>
          (\<lparr>datar_pads = pads_none\<lparr>clk := True\<rparr>,
            datar_sink_ready = False, datar_source = source_none, datar_reader_ready = False\<rparr>,
           \<lparr>datar_state = (if datar_count s = 40 - 1 then DATAR_IDLE else DATAR_CLK40),
            datar_timeout = datar_timeout s,
            datar_count = datar_count s + 1,
            datar_reset = datar_reset s\<rparr>)
      | DATAR_TIMEOUT \<Rightarrow>
          (\<lparr>datar_pads = pads_none, datar_sink_ready = False,
            datar_source = \<lparr>source_valid = True, source_data = 0,
                             source_status = SDCARD_STREAM_STATUS_TIMEOUT, source_last = True\<rparr>,
            datar_reader_ready = False\<rparr>,
           \<lparr>datar_state = (if datar_source_ready i then DATAR_IDLE else DATAR_TIMEOUT),
            datar_timeout = datar_timeout s,
            datar_count = datar_count s,
            datar_reset = datar_reset s\<rparr>))"

text \<open>\<open>SDPHYR(data=True, data_width=4, skip_start_bit=True)\<close>\<close>

definition datar_cfg :: sdphyr_cfg where
  "datar_cfg = \<lparr>cmd = False, data_width = 4, skip_start_bit = True\<rparr>"

definition SDPHYDATAR ::
  "u32 \<Rightarrow> datar_regs \<times> sdphyr_regs \<Rightarrow> datar_in \<Rightarrow> bool \<Rightarrow> 4 word
     \<Rightarrow> datar_out \<times> (datar_regs \<times> sdphyr_regs)" where
  "SDPHYDATAR treset sr i cmd_i data_i =
     (let (s, r) = sr;
          (out, s') = SDPHYDATAR_fsm treset s i (sdphyr_source_valid r) (sdphyr_source_data r)
      in (out, (s', SDPHYR datar_cfg r (datar_reset s) cmd_i data_i (datar_reader_ready out))))"

definition datar_regs_reset :: "u32 \<Rightarrow> datar_regs" where
  "datar_regs_reset treset =
     \<lparr>datar_state = DATAR_IDLE, datar_timeout = treset, datar_count = 0, datar_reset = False\<rparr>"

section \<open>Running a machine over a trace\<close>

text \<open>A step function maps the registers and one cycle's inputs to that cycle's outputs
  and the registers after the clock edge.  \<open>run_state\<close> is the state after a list of
  cycles, \<open>run_outs\<close> the outputs of those cycles.\<close>

fun run_state :: "('s \<Rightarrow> 'i \<Rightarrow> 'o \<times> 's) \<Rightarrow> 's \<Rightarrow> 'i list \<Rightarrow> 's" where
  "run_state f s [] = s"
| "run_state f s (i # ins) = run_state f (snd (f s i)) ins"

fun run_outs :: "('s \<Rightarrow> 'i \<Rightarrow> 'o \<times> 's) \<Rightarrow> 's \<Rightarrow> 'i list \<Rightarrow> 'o list" where
  "run_outs f s [] = []"
| "run_outs f s (i # ins) = fst (f s i) # run_outs f (snd (f s i)) ins"

text \<open>One cycle of the CRC response decoder's state machine: the \<open>start\<close> pulse and the
  output \<open>crcr.source\<close> of its reader.\<close>

record crcr_in =
  crcr_start :: bool
  crcr_rvalid :: bool
  crcr_rdata :: u8

definition crcr_cycle :: "crcr_regs \<Rightarrow> crcr_in \<Rightarrow> crcr_out \<times> crcr_regs" where
  "crcr_cycle s i = SDPHYCRCR_fsm s (crcr_start i) (crcr_rvalid i) (crcr_rdata i)"

text \<open>The pair \<open>(valid, error)\<close> of one cycle.\<close>

definition crcr_decision :: "crcr_out \<Rightarrow> bool \<times> bool" where
  "crcr_decision out = (crcr_valid out, crcr_error out)"

section \<open>The command writer fed from its byte stream\<close>

text \<open>
  The writer's \<open>sink\<close> is the line-domain end of a clock-domain crossing.  A queue entry
  \<open>(g, b, l)\<close> is a byte \<open>b\<close> with its \<open>last\<close> marker \<open>l\<close> that becomes valid \<open>g\<close> cycles
  after it reaches the head of the queue and stays valid until the writer takes it
  (\<open>sink.ready\<close>).
\<close>

type_synonym byte_queue = "(nat \<times> u8 \<times> bool) list"

definition queue_sink :: "byte_queue \<Rightarrow> sink8" where
  "queue_sink q =
     (case q of
        [] \<Rightarrow> \<lparr>sink_valid = False, sink_data = 0, sink_last = False\<rparr>
      | (g, b, l) # _ \<Rightarrow> \<lparr>sink_valid = (g = 0), sink_data = b, sink_last = l\<rparr>)"

definition queue_next :: "byte_queue \<Rightarrow> bool \<Rightarrow> byte_queue" where
  "queue_next q ready =
     (case q of
        [] \<Rightarrow> []
      | (g, b, l) # r \<Rightarrow> if 0 < g then (g - 1, b, l) # r else if ready then r else q)"

definition cmdw_cycle :: "cmdw_regs \<times> byte_queue \<Rightarrow> unit \<Rightarrow> cmdw_out \<times> (cmdw_regs \<times> byte_queue)" where
  "cmdw_cycle sq u =
     (let out_s = SDPHYCMDW (fst sq) (queue_sink (snd sq))
      in (fst out_s, (snd out_s, queue_next (snd sq) (cmdw_sink_ready (fst out_s)))))"

text \<open>The command line as the card sees it: the value driven in every cycle in which the
  writer enables the line clock.\<close>

definition cmdw_line :: "cmdw_out list \<Rightarrow> bool list" where
  "cmdw_line outs =
     map (\<lambda>out. cmd_o (cmdw_pads out)) (filter (\<lambda>out. clk (cmdw_pads out)) outs)"

text \<open>The writer run for \<open>n\<close> cycles from reset on the queue \<open>q\<close>.\<close>

definition cmdw_sim :: "nat \<Rightarrow> byte_queue \<Rightarrow> bool list" where
  "cmdw_sim n q = cmdw_line (run_outs cmdw_cycle (cmdw_reset, q) (replicate n ()))"

text \<open>The bits of a byte, most significant first.\<close>

definition msb_bits :: "u8 \<Rightarrow> bool list" where
  "msb_bits b = map (\<lambda>k. bit b (7 - k)) [0..<8]"

text \<open>The cycles the writer takes for a queue: per byte the wait, one idle cycle, eight
  bit cycles and, after a byte marked \<open>last\<close>, the cycles of state CLK8.\<close>

fun cmdw_cycles :: "byte_queue \<Rightarrow> nat" where
  "cmdw_cycles [] = 0"
| "cmdw_cycles ((g, b, l) # q) = g + 1 + 8 + (if l then 256 else 0) + cmdw_cycles q"

text \<open>The line trace with a trailer of \<open>k\<close> high cycles after every byte marked \<open>last\<close>.\<close>

definition cmdw_expected :: "nat \<Rightarrow> byte_queue \<Rightarrow> bool list" where
  "cmdw_expected k q =
     concat (map (\<lambda>(g, b, l). msb_bits b @ (if l then replicate k True else [])) q)"

text \<open>The cycles the writer spends on one queue entry.\<close>

definition byte_cycles :: "nat \<Rightarrow> bool \<Rightarrow> unit list" where
  "byte_cycles g l = replicate g () @ [()] @ replicate 8 () @ (if l then replicate 256 () else [])"

section \<open>The data reader's state machine over a trace\<close>

text \<open>One cycle of the data reader's state machine: the request and result streams and
  the output \<open>datar.source\<close> (valid, data) of its reader.\<close>

type_synonym datar_cycle_in = "datar_in \<times> bool \<times> u8"

definition datar_rvalid :: "datar_cycle_in \<Rightarrow> bool" where
  "datar_rvalid x = fst (snd x)"

definition datar_rdata :: "datar_cycle_in \<Rightarrow> u8" where
  "datar_rdata x = snd (snd x)"

definition datar_fsm_cycle :: "u32 \<Rightarrow> datar_regs \<Rightarrow> datar_cycle_in \<Rightarrow> datar_out \<times> datar_regs" where
  "datar_fsm_cycle treset s x = SDPHYDATAR_fsm treset s (fst x) (datar_rvalid x) (datar_rdata x)"

text \<open>A byte is handed over in a cycle in which the reader offers one and the result
  stream is ready (\<open>source.valid & source.ready\<close> in state DATA).\<close>

definition datar_xfer :: "datar_cycle_in \<Rightarrow> bool" where
  "datar_xfer x = (datar_rvalid x \<and> datar_source_ready (fst x))"

text \<open>The items the result stream accepts in one cycle (none or one).\<close>

definition datar_emit :: "u32 \<Rightarrow> datar_regs \<Rightarrow> datar_cycle_in \<Rightarrow> source_out list \<times> datar_regs" where
  "datar_emit treset s x =
     (let out = fst (datar_fsm_cycle treset s x)
      in (if source_valid (datar_source out) \<and> datar_source_ready (fst x)
          then [datar_source out] else [],
          snd (datar_fsm_cycle treset s x)))"

definition datar_items :: "u32 \<Rightarrow> datar_regs \<Rightarrow> datar_cycle_in list \<Rightarrow> source_out list" where
  "datar_items treset s ins = concat (run_outs (datar_emit treset) s ins)"

text \<open>The cycle presents the request: block length \<open>n\<close> with \<open>last\<close> marker \<open>l\<close>.\<close>

definition datar_request :: "u10 \<Rightarrow> bool \<Rightarrow> datar_cycle_in \<Rightarrow> bool" where
  "datar_request n l x =
     (datar_sink_valid (fst x) \<and> datar_sink_block_length (fst x) = n \<and> datar_sink_last (fst x) = l)"

text \<open>A data byte on a result stream, with its \<open>last\<close> flag.\<close>

definition ok_item :: "bool \<Rightarrow> u8 \<Rightarrow> source_out" where
  "ok_item l d = \<lparr>source_valid = True, source_data = d,
     source_status = SDCARD_STREAM_STATUS_OK, source_last = l\<rparr>"

text \<open>A cycle with a request for \<open>n\<close> bytes marked \<open>last\<close>, the reader offering the byte
  \<open>0x42\<close> and the result stream ready.\<close>

definition datar_example_cycle :: "u10 \<Rightarrow> datar_cycle_in" where
  "datar_example_cycle n =
     (\<lparr>datar_sink_valid = True, datar_sink_block_length = n, datar_sink_last = True,
       datar_source_ready = True\<rparr>, True, 0x42)"

section \<open>The command reader's state machine over a trace\<close>

text \<open>One cycle of the command reader's state machine: the request stream, the writer's
  \<open>done\<close>, the result stream's ready and the output \<open>cmdr.source\<close> (valid, data) of its
  reader.\<close>

type_synonym cmdr_cycle_in = "cmdr_in \<times> bool \<times> u8"

definition cmdr_rvalid :: "cmdr_cycle_in \<Rightarrow> bool" where
  "cmdr_rvalid x = fst (snd x)"

definition cmdr_rdata :: "cmdr_cycle_in \<Rightarrow> u8" where
  "cmdr_rdata x = snd (snd x)"

definition cmdr_fsm_cycle :: "u32 \<Rightarrow> cmdr_regs \<Rightarrow> cmdr_cycle_in \<Rightarrow> cmdr_out \<times> cmdr_regs" where
  "cmdr_fsm_cycle treset s x = SDPHYCMDR_fsm treset s (fst x) (cmdr_rvalid x) (cmdr_rdata x)"

definition cmdr_xfer :: "cmdr_cycle_in \<Rightarrow> bool" where
  "cmdr_xfer x = (cmdr_rvalid x \<and> cmdr_source_ready (fst x))"

definition cmdr_emit :: "u32 \<Rightarrow> cmdr_regs \<Rightarrow> cmdr_cycle_in \<Rightarrow> source_out list \<times> cmdr_regs" where
  "cmdr_emit treset s x =
     (let out = fst (cmdr_fsm_cycle treset s x)
      in (if source_valid (cmdr_source out) \<and> cmdr_source_ready (fst x)
          then [cmdr_source out] else [],
          snd (cmdr_fsm_cycle treset s x)))"

definition cmdr_items :: "u32 \<Rightarrow> cmdr_regs \<Rightarrow> cmdr_cycle_in list \<Rightarrow> source_out list" where
  "cmdr_items treset s ins = concat (run_outs (cmdr_emit treset) s ins)"

text \<open>The cycle presents the request: length \<open>n\<close> with \<open>last\<close> marker \<open>l\<close>.\<close>

definition cmdr_request :: "u8 \<Rightarrow> bool \<Rightarrow> cmdr_cycle_in \<Rightarrow> bool" where
  "cmdr_request n l x =
     (cmdr_sink_valid (fst x) \<and> cmdr_sink_length (fst x) = n \<and> cmdr_sink_last (fst x) = l)"

text \<open>A cycle with a request for \<open>n\<close> bytes, the writer idle, the reader offering the byte
  \<open>0x3F\<close> and the result stream ready.\<close>

definition cmdr_example_cycle :: "u8 \<Rightarrow> cmdr_cycle_in" where
  "cmdr_example_cycle n =
     (\<lparr>cmdr_sink_valid = True, cmdr_sink_length = n, cmdr_sink_last = False,
       cmdr_cmdw_done = True, cmdr_source_ready = True\<rparr>, True, 0x3F)"

section \<open>The command reader on the command line\<close>

text \<open>One cycle of the command reader with its embedded reader: the request stream, the
  writer's \<open>done\<close> and the result stream's ready, and the sampled lines \<open>cmd.i\<close> and
  \<open>data.i\<close>.  The output is the list of items the result stream accepts in the cycle.\<close>

type_synonym cmdr_line_in = "cmdr_in \<times> bool \<times> 4 word"

definition cmdr_cmd_i :: "cmdr_line_in \<Rightarrow> bool" where
  "cmdr_cmd_i x = fst (snd x)"

definition cmdr_line_cycle ::
  "u32 \<Rightarrow> cmdr_regs \<times> sdphyr_regs \<Rightarrow> cmdr_line_in
     \<Rightarrow> source_out list \<times> (cmdr_regs \<times> sdphyr_regs)" where
  "cmdr_line_cycle treset sr x =
     (let out_sr = SDPHYCMDR treset sr (fst x) (cmdr_cmd_i x) (snd (snd x));
          out = fst out_sr
      in (if source_valid (cmdr_source out) \<and> cmdr_source_ready (fst x)
          then [cmdr_source out] else [],
          snd out_sr))"

definition cmdr_line_items ::
  "u32 \<Rightarrow> cmdr_regs \<times> sdphyr_regs \<Rightarrow> cmdr_line_in list \<Rightarrow> source_out list" where
  "cmdr_line_items treset sr ins = concat (run_outs (cmdr_line_cycle treset) sr ins)"

text \<open>The single item of state TIMEOUT.\<close>

definition timeout_item :: source_out where
  "timeout_item = \<lparr>source_valid = True, source_data = 0,
     source_status = SDCARD_STREAM_STATUS_TIMEOUT, source_last = True\<rparr>"

text \<open>While a request waits for its response: the machine is in WAIT or CMD, and its
  reader either is about to be reset or is in its reset state.\<close>

definition cmdr_waiting :: "cmdr_regs \<times> sdphyr_regs \<Rightarrow> bool" where
  "cmdr_waiting sr =
     ((cmdr_state (fst sr) = CMDR_WAIT \<and> cmdr_reset (fst sr)) \<or>
      ((cmdr_state (fst sr) = CMDR_WAIT \<or> cmdr_state (fst sr) = CMDR_CMD) \<and>
       (if cmdr_reset (fst sr) then False else snd sr = sdphyr_reset)))"

text \<open>A cycle with a request for 6 bytes pending, the writer idle, the result stream
  ready and both lines idle (high).\<close>

definition cmdr_idle_line :: cmdr_line_in where
  "cmdr_idle_line =
     (\<lparr>cmdr_sink_valid = True, cmdr_sink_length = 6, cmdr_sink_last = False,
       cmdr_cmdw_done = True, cmdr_source_ready = True\<rparr>, True, 15)"

section \<open>The bit stream reader over a trace\<close>

text \<open>One cycle of the reader: the inserted reset, the sampled lines and the consumer's
  ready.\<close>

record sdphyr_in =
  rd_reset :: bool
  rd_cmd_i :: bool
  rd_data_i :: "4 word"
  rd_ready :: bool

definition sdphyr_cycle :: "sdphyr_cfg \<Rightarrow> sdphyr_regs \<Rightarrow> sdphyr_in \<Rightarrow> (bool \<times> u8) \<times> sdphyr_regs" where
  "sdphyr_cycle cfg r x =
     ((sdphyr_source_valid r, sdphyr_source_data r),
      SDPHYR cfg r (rd_reset x) (rd_cmd_i x) (rd_data_i x) (rd_ready x))"

text \<open>The start condition in a cycle.\<close>

definition sdphyr_start :: "sdphyr_cfg \<Rightarrow> sdphyr_in \<Rightarrow> bool" where
  "sdphyr_start cfg x = start cfg (rd_cmd_i x) (rd_data_i x)"

text \<open>The number of cycles since the first start condition after the last reset, the
  cycle of that start condition included; \<open>None\<close> when there has been none.\<close>

definition since_start_step :: "sdphyr_cfg \<Rightarrow> nat option \<Rightarrow> sdphyr_in \<Rightarrow> nat option" where
  "since_start_step cfg g x =
     (if rd_reset x then None
      else case g of
             None \<Rightarrow> if sdphyr_start cfg x then Some 1 else None
           | Some d \<Rightarrow> Some (d + 1))"

definition since_start :: "sdphyr_cfg \<Rightarrow> sdphyr_in list \<Rightarrow> nat option" where
  "since_start cfg ins = foldl (since_start_step cfg) None ins"

text \<open>What the registers can hold \<open>d\<close> cycles after the start condition: the converter has
  taken at most \<open>d\<close> samples, a complete byte needs \<open>8 div width\<close> of them, and the buffer
  holds it one cycle later.\<close>

definition sdphyr_inv :: "sdphyr_cfg \<Rightarrow> sdphyr_regs \<Rightarrow> nat option \<Rightarrow> bool" where
  "sdphyr_inv cfg r g =
     (case g of
        None \<Rightarrow> run r = False \<and> demux (converter r) = 0 \<and>
                 strobe_all (converter r) = False \<and> buf_valid (buf r) = False
      | Some d \<Rightarrow> demux (converter r) \<le> d \<and> demux (converter r) < 8 div data_width cfg \<and>
                  (if strobe_all (converter r) then 8 div data_width cfg \<le> d else True) \<and>
                  (if buf_valid (buf r) then 8 div data_width cfg + 1 \<le> d else True))"

text \<open>Four cycles on the data lines: the start condition, the nibbles \<open>0xA\<close> and \<open>0x5\<close>,
  and idle lines.\<close>

definition nibble_cycle :: "4 word \<Rightarrow> sdphyr_in" where
  "nibble_cycle d = \<lparr>rd_reset = False, rd_cmd_i = True, rd_data_i = d, rd_ready = False\<rparr>"

section \<open>The CRC response decoder and the data reader on the data lines\<close>

text \<open>One cycle of the CRC response decoder with its embedded reader: the \<open>start\<close> pulse
  and the sampled data lines (the command line is idle).  The output is the pair
  \<open>(valid, error)\<close>.\<close>

type_synonym crcr_line_in = "bool \<times> 4 word"

definition crcr_line_cycle ::
  "crcr_regs \<times> sdphyr_regs \<Rightarrow> crcr_line_in \<Rightarrow> (bool \<times> bool) \<times> (crcr_regs \<times> sdphyr_regs)" where
  "crcr_line_cycle sr x =
     (crcr_decision (fst (SDPHYCRCR sr (fst x) True (snd x))),
      snd (SDPHYCRCR sr (fst x) True (snd x)))"

text \<open>
  The CRC status response of a card on data line 0, the other data lines idle: the
  start pulse, two idle cycles, the start bit, the three status bits \<open>s2 s1 s0\<close>, the end
  bit, and the card holding the line low while it is busy.
\<close>

definition dat0 :: "bool \<Rightarrow> 4 word" where
  "dat0 b = (if b then 15 else 14)"

definition crc_status_trace :: "bool \<Rightarrow> bool \<Rightarrow> bool \<Rightarrow> crcr_line_in list" where
  "crc_status_trace s2 s1 s0 =
     [(True, dat0 True), (False, dat0 True), (False, dat0 True),
      (False, dat0 False),
      (False, dat0 s2), (False, dat0 s1), (False, dat0 s0),
      (False, dat0 True),
      (False, dat0 False), (False, dat0 False), (False, dat0 False), (False, dat0 False),
      (False, dat0 False), (False, dat0 False)]"

text \<open>One cycle of the data reader with its embedded reader: the request and result
  streams and the sampled data lines (the command line is idle).  The output is the
  list of items the result stream accepts in the cycle.\<close>

type_synonym datar_line_in = "datar_in \<times> 4 word"

definition datar_line_cycle ::
  "u32 \<Rightarrow> datar_regs \<times> sdphyr_regs \<Rightarrow> datar_line_in
     \<Rightarrow> source_out list \<times> (datar_regs \<times> sdphyr_regs)" where
  "datar_line_cycle treset sr x =
     (let out_sr = SDPHYDATAR treset sr (fst x) True (snd x);
          out = fst out_sr
      in (if source_valid (datar_source out) \<and> datar_source_ready (fst x)
          then [datar_source out] else [],
          snd out_sr))"

definition datar_line_items ::
  "u32 \<Rightarrow> datar_regs \<times> sdphyr_regs \<Rightarrow> datar_line_in list \<Rightarrow> source_out list" where
  "datar_line_items treset sr ins = concat (run_outs (datar_line_cycle treset) sr ins)"

text \<open>A request for a block of \<open>n\<close> bytes, marked \<open>last\<close>, with the result stream ready,
  in a cycle in which the data lines show \<open>d\<close>.\<close>

definition datar_read_cycle :: "u10 \<Rightarrow> 4 word \<Rightarrow> datar_line_in" where
  "datar_read_cycle n d =
     (\<lparr>datar_sink_valid = True, datar_sink_block_length = n, datar_sink_last = True,
       datar_source_ready = True\<rparr>, d)"

text \<open>The beginning of a card's answer on the four data lines: two idle cycles, the start
  condition, and the nibbles of the bytes \<open>0xA5\<close>, \<open>0x3C\<close> and \<open>0x96\<close>.\<close>

definition datar_block_trace :: "u10 \<Rightarrow> datar_line_in list" where
  "datar_block_trace n =
     map (datar_read_cycle n) [15, 15, 0, 0xA, 0x5, 0x3, 0xC, 0x9, 0x6]"

section \<open>SDPHY: the five modules on the shared pads\<close>

record sdphy_regs =
  phy_init :: init_regs
  phy_cmdw :: cmdw_regs
  phy_cmdr :: "cmdr_regs \<times> sdphyr_regs"
  phy_dataw :: "dataw_regs \<times> (crcr_regs \<times> sdphyr_regs)"
  phy_datar :: "datar_regs \<times> sdphyr_regs"

text \<open>The inputs of one cycle: the initialization pulse, the line-domain ends of the four
  request streams and the readies of the two result streams, and the sampled lines.
  The field \<open>cmdr_cmdw_done\<close> of \<open>in_cmdr\<close> is not an input: it is driven by the command
  writer.\<close>

record sdphy_in =
  in_initialize :: bool
  in_cmdw_sink :: sink8
  in_cmdr :: cmdr_in
  in_dataw_sink :: sink8
  in_datar :: datar_in
  in_cmd_i :: bool
  in_data_i :: "4 word"

definition sdphy_reset :: "u32 \<Rightarrow> u32 \<Rightarrow> sdphy_regs" where
  "sdphy_reset ct dt =
     \<lparr>phy_init = init_reset, phy_cmdw = cmdw_reset,
      phy_cmdr = (cmdr_regs_reset ct, sdphyr_reset),
      phy_dataw = (dataw_regs_reset, (crcr_regs_reset, sdphyr_reset)),
      phy_datar = (datar_regs_reset dt, sdphyr_reset)\<rparr>"

text \<open>One cycle of the engine.  The output is \<open>[m.pads_out for m in [init, cmdw, cmdr,
  dataw, datar]]\<close>; \<open>ct\<close> and \<open>dt\<close> are the reload values of the two timeout counters.\<close>

definition SDPHY :: "u32 \<Rightarrow> u32 \<Rightarrow> sdphy_regs \<Rightarrow> sdphy_in \<Rightarrow> pads_out list \<times> sdphy_regs" where
  "SDPHY ct dt s x =
     (let i = SDPHYInit (phy_init s) (in_initialize x);
          w = SDPHYCMDW (phy_cmdw s) (in_cmdw_sink x);
          r = SDPHYCMDR ct (phy_cmdr s) ((in_cmdr x)\<lparr>cmdr_cmdw_done := cmdw_done (fst w)\<rparr>)
                (in_cmd_i x) (in_data_i x);
          dw = SDPHYDATAW (phy_dataw s) (in_dataw_sink x) (in_cmd_i x) (in_data_i x);
          dr = SDPHYDATAR dt (phy_datar s) (in_datar x) (in_cmd_i x) (in_data_i x)
      in ([fst i, cmdw_pads (fst w), cmdr_pads (fst r), dataw_pads (fst dw),
           datar_pads (fst dr)],
          \<lparr>phy_init = snd i, phy_cmdw = snd w, phy_cmdr = snd r, phy_dataw = snd dw,
           phy_datar = snd dr\<rparr>))"

text \<open>\<open>reduce(or_, [...])\<close> over the list of the five modules, which is never empty.\<close>

definition reduce :: "('a \<Rightarrow> 'a \<Rightarrow> 'a) \<Rightarrow> 'a list \<Rightarrow> 'a" where
  "reduce f xs = foldl f (hd xs) (tl xs)"

definition sdpads :: "pads_out list \<Rightarrow> pads_out" where
  "sdpads ms =
     \<lparr>clk = reduce (\<or>) (map clk ms),
      cmd_oe = reduce (\<or>) (map cmd_oe ms),
      cmd_o = reduce (\<or>) (map cmd_o ms),
      data_oe = reduce (\<or>) (map data_oe ms),
      data_o = reduce (OR) (map data_o ms)\<rparr>"

text \<open>How many of the four state machines (command write, command read, data write,
  data read: the list without \<open>init\<close>) assert an output-enable, of either line and of
  each line.\<close>

definition oe_drivers :: "pads_out list \<Rightarrow> nat" where
  "oe_drivers ms = length (filter (\<lambda>p. cmd_oe p \<or> data_oe p) (tl ms))"

definition cmd_oe_drivers :: "pads_out list \<Rightarrow> nat" where
  "cmd_oe_drivers ms = length (filter cmd_oe (tl ms))"

definition data_oe_drivers :: "pads_out list \<Rightarrow> nat" where
  "data_oe_drivers ms = length (filter data_oe (tl ms))"

text \<open>The controller offers no command byte in a cycle in which the command reader is
  not idle.\<close>

fun sequenced :: "u32 \<Rightarrow> u32 \<Rightarrow> sdphy_regs \<Rightarrow> sdphy_in list \<Rightarrow> bool" where
  "sequenced ct dt s [] = True"
| "sequenced ct dt s (x # xs) =
     ((if cmdr_state (fst (phy_cmdr s)) = CMDR_IDLE then True
       else sink_valid (in_cmdw_sink x) = False) \<and>
      sequenced ct dt (snd (SDPHY ct dt s x)) xs)"

text \<open>Input cycles with idle lines: nothing pending, and a command byte pending.\<close>

definition sdphy_idle_in :: sdphy_in where
  "sdphy_idle_in =
     \<lparr>in_initialize = False,
      in_cmdw_sink = \<lparr>sink_valid = False, sink_data = 0, sink_last = False\<rparr>,
      in_cmdr = \<lparr>cmdr_sink_valid = False, cmdr_sink_length = 0, cmdr_sink_last = False,
                 cmdr_cmdw_done = False, cmdr_source_ready = True\<rparr>,
      in_dataw_sink = \<lparr>sink_valid = False, sink_data = 0, sink_last = False\<rparr>,
      in_datar = \<lparr>datar_sink_valid = False, datar_sink_block_length = 0,
                  datar_sink_last = False, datar_source_ready = True\<rparr>,
      in_cmd_i = True, in_data_i = 15\<rparr>"

definition sdphy_cmd_in :: sdphy_in where
  "sdphy_cmd_in =
     sdphy_idle_in\<lparr>in_cmdw_sink := \<lparr>sink_valid = True, sink_data = 0x40, sink_last = False\<rparr>\<rparr>"

text \<open>A cycle in which a command-read request for one byte, marked \<open>last\<close>, is pending and
  the result stream is ready: \<open>v\<close> tells whether a command byte is pending too, \<open>c\<close> is
  the command line.\<close>

definition sdphy_read_in :: "bool \<Rightarrow> bool \<Rightarrow> sdphy_in" where
  "sdphy_read_in v c =
     sdphy_idle_in\<lparr>in_cmdw_sink := \<lparr>sink_valid = v, sink_data = 0x40, sink_last = False\<rparr>,
       in_cmdr := \<lparr>cmdr_sink_valid = True, cmdr_sink_length = 1, cmdr_sink_last = True,
                   cmdr_cmdw_done = False, cmdr_source_ready = True\<rparr>,
       in_cmd_i := c\<rparr>"

text \<open>A response byte \<open>0x3F\<close> arrives on the command line for that request, and the
  controller offers a command byte from the cycle in which the response byte is handed
  over.\<close>

definition sdphy_overlap_trace :: "sdphy_in list" where
  "sdphy_overlap_trace =
     [sdphy_read_in False True, sdphy_read_in False True,
      sdphy_read_in False False, sdphy_read_in False False,
      sdphy_read_in False True, sdphy_read_in False True, sdphy_read_in False True,
      sdphy_read_in False True, sdphy_read_in False True, sdphy_read_in False True,
      sdphy_read_in False True, sdphy_read_in False True,
      sdphy_read_in True True]"

text \<open>While the command reader is busy the command writer is idle.\<close>

definition cmd_exclusive :: "sdphy_regs \<Rightarrow> bool" where
  "cmd_exclusive s =
     (if cmdr_state (fst (phy_cmdr s)) = CMDR_IDLE then True
      else cmdw_state (phy_cmdw s) = CMDW_IDLE)"

section \<open>The command writer looped back into the command reader\<close>

text \<open>
  The request of the command reader in the loop: a request for \<open>n\<close> bytes with \<open>last\<close>
  marker \<open>lr\<close> is on the line-domain end of the reader's clock-domain crossing until
  the reader takes it (\<open>sink.ready\<close>); the writer is idle (\<open>cmdw.done\<close>), and the result
  stream is always ready.
\<close>

definition request_in :: "bool \<Rightarrow> u8 \<Rightarrow> bool \<Rightarrow> cmdr_in" where
  "request_in pending n lr =
     \<lparr>cmdr_sink_valid = pending, cmdr_sink_length = n, cmdr_sink_last = lr,
      cmdr_cmdw_done = True, cmdr_source_ready = True\<rparr>"

text \<open>One cycle of the command reader with its request: \<open>x\<close> is the sample of the
  command line, the data lines are idle (high).  The state is the reader's registers
  and whether the request is still pending; the output is the list of items the
  result stream accepts in the cycle.\<close>

definition loopback_cycle ::
  "u32 \<Rightarrow> u8 \<Rightarrow> bool \<Rightarrow> (cmdr_regs \<times> sdphyr_regs) \<times> bool \<Rightarrow> bool
     \<Rightarrow> source_out list \<times> ((cmdr_regs \<times> sdphyr_regs) \<times> bool)" where
  "loopback_cycle treset n lr sp x =
     (let out_sr = SDPHYCMDR treset (fst sp) (request_in (snd sp) n lr) x 15;
          out = fst out_sr
      in (if source_valid (cmdr_source out) then [cmdr_source out] else [],
          (snd out_sr, snd sp \<and> \<not> cmdr_sink_ready out)))"

definition loopback_items ::
  "u32 \<Rightarrow> u8 \<Rightarrow> bool \<Rightarrow> (cmdr_regs \<times> sdphyr_regs) \<times> bool \<Rightarrow> bool list \<Rightarrow> source_out list" where
  "loopback_items treset n lr sp line = concat (run_outs (loopback_cycle treset n lr) sp line)"

text \<open>The queue of the command writer for one frame: the bytes \<open>map snd gbs @ [b]\<close>, each
  valid after its wait, and only the final byte carries the \<open>last\<close> marker \<open>l\<close>.\<close>

definition frame_queue :: "(nat \<times> u8) list \<Rightarrow> nat \<Rightarrow> u8 \<Rightarrow> bool \<Rightarrow> byte_queue" where
  "frame_queue gbs g b l = map (\<lambda>(g, b). (g, b, False)) gbs @ [(g, b, l)]"

text \<open>The items of a response of the bytes \<open>bs\<close>: status \<open>OK\<close>, and \<open>last\<close> on the final
  byte only.\<close>

definition ok_items :: "u8 list \<Rightarrow> source_out list" where
  "ok_items bs = map (ok_item False) (butlast bs) @ [ok_item True (last bs)]"

text \<open>The registers of the command reader and of its embedded reader once the start bit
  has been seen: state, timeout, count, and the converter's and the buffer's
  registers.\<close>

definition cmdr_mk ::
  "cmdr_state \<Rightarrow> u32 \<Rightarrow> u8 \<Rightarrow> nat \<Rightarrow> bool \<Rightarrow> u8 \<Rightarrow> bool \<Rightarrow> u8 \<Rightarrow> cmdr_regs \<times> sdphyr_regs" where
  "cmdr_mk st t c dm sv cd bv bd =
     (\<lparr>cmdr_state = st, cmdr_timeout = t, cmdr_count = c, cmdr_reset = False\<rparr>,
      \<lparr>run = True, converter = \<lparr>demux = dm, strobe_all = sv, conv_data = cd\<rparr>,
       buf = \<lparr>buf_valid = bv, buf_data = bd\<rparr>\<rparr>)"

text \<open>The command reader waiting for the start bit, its reader in the reset state.\<close>

definition cmdr_quiet :: "u32 \<Rightarrow> bool \<Rightarrow> cmdr_regs \<times> sdphyr_regs" where
  "cmdr_quiet t rs =
     (\<lparr>cmdr_state = CMDR_WAIT, cmdr_timeout = t, cmdr_count = 0, cmdr_reset = rs\<rparr>,
      sdphyr_reset)"

(*DEFS-END*)

section \<open>The line clock\<close>

lemma divider_after_eq: "divider_after n = of_nat n"
  by (induction n) simp_all

lemma bit_counter: "k < 8 \<Longrightarrow> bit (divider_after n) k = odd (n div 2 ^ k)"
proof -
  assume k: "k < 8"
  have "bit (of_nat n :: u8) k = bit n k"
    using k by (simp add: bit_of_nat_iff)
  then show ?thesis
    by (simp add: divider_after_eq bit_iff_odd)
qed

lemma map_of_cases:
  "map_of cases = [2 \<mapsto> 0, 4 \<mapsto> 1, 8 \<mapsto> 2, 16 \<mapsto> 3, 32 \<mapsto> 4, 64 \<mapsto> 5, 128 \<mapsto> (6::nat)]"
  by (rule ext) (simp add: cases_def upt_rec)

lemma cases_keys: "fst ` set cases = {2, 4, 8, 16, 32, 64, 128}"
  by (auto simp add: cases_def upt_rec)

lemma clk_tap_lt: "clk_tap storage < 8"
  by (simp add: clk_tap_def map_of_cases)

lemma clk_tap_pow: "storage \<in> fst ` set cases \<Longrightarrow> 2 ^ clk_tap storage = unat storage div 2"
  by (auto simp add: clk_tap_def cases_def upt_rec)

lemma clk_tap_default: "storage \<notin> fst ` set cases \<Longrightarrow> clk_tap storage = 0"
  by (auto simp add: clk_tap_def cases_def upt_rec)

text \<open>
  C5, as the spec states it: for a power-of-two divider the line clock toggles at
  \<open>base_clock / (2 * divider)\<close>, so with the default divider 128 it would stay low for
  the first 128 base cycles.  The tapped counter bit is bit 6: the clock is low at
  cycle 0, high at cycle 64 and low again at cycle 128, a whole period in 128 base
  cycles.
\<close>

theorem clocker_rate_counterexample:
  "\<not> sd_clk_at 128 0 \<and> sd_clk_at 128 64 \<and> \<not> sd_clk_at 128 128 \<and>
   sd_clk_at 128 64 \<noteq> square_wave 128 64"
  by (simp add: sd_clk_at_def cd_sd_clk_def square_wave_def divider_after_eq clk_tap_def
      map_of_cases bit_iff_odd)

text \<open>
  C5, amended: every 8-bit divider value is accepted.  For the values 2, 4, ..., 128
  that the case table lists, the line clock toggles every \<open>divider / 2\<close> base cycles:
  its frequency is \<open>base_clock / divider\<close>.  For every other value (0, 1 and every value
  that is not a power of two) the line clock is the least significant counter bit,
  which toggles every base cycle.
\<close>

theorem clocker_line_clock:
  "sd_clk_at storage n =
     square_wave (if storage \<in> fst ` set cases then unat storage div 2 else 1) n"
proof (cases "storage \<in> fst ` set cases")
  case True
  then show ?thesis
    using clk_tap_pow[OF True] bit_counter[OF clk_tap_lt[of storage], of n]
    by (simp add: sd_clk_at_def cd_sd_clk_def square_wave_def)
next
  case False
  then show ?thesis
    using clk_tap_default[OF False] bit_counter[of 0 n]
    by (simp add: sd_clk_at_def cd_sd_clk_def square_wave_def)
qed

section \<open>Traces\<close>

lemma run_state_append: "run_state f s (xs @ ys) = run_state f (run_state f s xs) ys"
  by (induction xs arbitrary: s) simp_all

lemma run_outs_append:
  "run_outs f s (xs @ ys) = run_outs f s xs @ run_outs f (run_state f s xs) ys"
  by (induction xs arbitrary: s) simp_all

lemma length_run_outs: "length (run_outs f s ins) = length ins"
  by (induction ins arbitrary: s) simp_all

section \<open>A timeout is a final item\<close>

text \<open>
  C4: in every state and for every input of the command reader and of the data reader,
  a result whose status is \<open>TIMEOUT\<close> is valid and has its \<open>last\<close> flag set.
\<close>

theorem timeout_status_is_last:
  "(source_status (cmdr_source (fst (SDPHYCMDR_fsm t s i v d))) = SDCARD_STREAM_STATUS_TIMEOUT
      \<longrightarrow> source_valid (cmdr_source (fst (SDPHYCMDR_fsm t s i v d)))
          \<and> source_last (cmdr_source (fst (SDPHYCMDR_fsm t s i v d)))) \<and>
   (source_status (datar_source (fst (SDPHYDATAR_fsm t' s' i' v' d'))) = SDCARD_STREAM_STATUS_TIMEOUT
      \<longrightarrow> source_valid (datar_source (fst (SDPHYDATAR_fsm t' s' i' v' d')))
          \<and> source_last (datar_source (fst (SDPHYDATAR_fsm t' s' i' v' d'))))"
  by (cases "cmdr_state s"; cases "datar_state s'")
     (simp_all add: SDPHYCMDR_fsm_def SDPHYDATAR_fsm_def source_none_def Let_def)

theorem timeout_status_is_last_witness:
  "source_status (cmdr_source (fst (SDPHYCMDR_fsm 250000
       \<lparr>cmdr_state = CMDR_TIMEOUT, cmdr_timeout = 0, cmdr_count = 0, cmdr_reset = False\<rparr>
       \<lparr>cmdr_sink_valid = False, cmdr_sink_length = 6, cmdr_sink_last = False,
        cmdr_cmdw_done = True, cmdr_source_ready = True\<rparr> False 0)))
     = SDCARD_STREAM_STATUS_TIMEOUT \<and>
   source_status (datar_source (fst (SDPHYDATAR_fsm 250000
       \<lparr>datar_state = DATAR_TIMEOUT, datar_timeout = 0, datar_count = 0, datar_reset = False\<rparr>
       \<lparr>datar_sink_valid = False, datar_sink_block_length = 512, datar_sink_last = False,
        datar_source_ready = True\<rparr> False 0)))
     = SDCARD_STREAM_STATUS_TIMEOUT \<and>
   source_last (cmdr_source (fst (SDPHYCMDR_fsm 250000
       \<lparr>cmdr_state = CMDR_TIMEOUT, cmdr_timeout = 0, cmdr_count = 0, cmdr_reset = False\<rparr>
       \<lparr>cmdr_sink_valid = False, cmdr_sink_length = 6, cmdr_sink_last = False,
        cmdr_cmdw_done = True, cmdr_source_ready = True\<rparr> False 0))) \<and>
   source_last (datar_source (fst (SDPHYDATAR_fsm 250000
       \<lparr>datar_state = DATAR_TIMEOUT, datar_timeout = 0, datar_count = 0, datar_reset = False\<rparr>
       \<lparr>datar_sink_valid = False, datar_sink_block_length = 512, datar_sink_last = False,
        datar_source_ready = True\<rparr> False 0)))"
  (is "?a \<and> ?b \<and> ?c \<and> ?d")
proof -
  have a: ?a by (simp add: SDPHYCMDR_fsm_def)
  have b: ?b by (simp add: SDPHYDATAR_fsm_def)
  have cd: "?c \<and> ?d"
    using a b timeout_status_is_last[of 250000
       "\<lparr>cmdr_state = CMDR_TIMEOUT, cmdr_timeout = 0, cmdr_count = 0, cmdr_reset = False\<rparr>"
       "\<lparr>cmdr_sink_valid = False, cmdr_sink_length = 6, cmdr_sink_last = False,
        cmdr_cmdw_done = True, cmdr_source_ready = True\<rparr>" False 0 250000
       "\<lparr>datar_state = DATAR_TIMEOUT, datar_timeout = 0, datar_count = 0, datar_reset = False\<rparr>"
       "\<lparr>datar_sink_valid = False, datar_sink_block_length = 512, datar_sink_last = False,
        datar_source_ready = True\<rparr>" False 0]
    by blast
  show ?thesis using a b cd by blast
qed

section \<open>The CRC response decoder\<close>

lemma crcr_wait_state:
  "crcr_state s = CRCR_WAIT_CHECK \<Longrightarrow> \<forall>x \<in> set waits. \<not> crcr_rvalid x \<Longrightarrow>
   crcr_state (run_state crcr_cycle s waits) = CRCR_WAIT_CHECK"
  by (induction waits arbitrary: s) (simp_all add: crcr_cycle_def SDPHYCRCR_fsm_def)

lemma crcr_wait_outs:
  "crcr_state s = CRCR_WAIT_CHECK \<Longrightarrow> \<forall>x \<in> set waits. \<not> crcr_rvalid x \<Longrightarrow>
   map crcr_decision (run_outs crcr_cycle s waits) = map (\<lambda>_. (False, False)) waits"
  by (induction waits arbitrary: s)
     (simp_all add: crcr_cycle_def SDPHYCRCR_fsm_def crcr_decision_def)

text \<open>
  The state machine alone, with the byte its reader delivers as an input: the decoder
  is idle and receives a start pulse (cycle \<open>p\<close>).  It sets the reset of
  its reader and goes to WAIT-CHECK.  While the reader delivers nothing (the cycles
  \<open>waits\<close>) it asserts neither \<open>valid\<close> nor \<open>error\<close>.  In the cycle \<open>t\<close> in which the reader
  delivers its value it asserts \<open>error\<close> if the value is \<open>0b101\<close> and \<open>valid\<close> otherwise,
  never both, and it is idle again afterwards: one decision for the pulse.
\<close>

theorem crc_response_decision:
  assumes idle: "crcr_state s = CRCR_IDLE"
    and pulse: "crcr_start p"
    and waits: "\<forall>x \<in> set waits. \<not> crcr_rvalid x"
    and tok: "crcr_rvalid t"
  shows "crcr_reset (snd (crcr_cycle s p)) \<and>
         crcr_state (snd (crcr_cycle s p)) = CRCR_WAIT_CHECK \<and>
         map crcr_decision (run_outs crcr_cycle s (p # waits @ [t])) =
           (False, False) # map (\<lambda>_. (False, False)) waits @
             [(crcr_rdata t \<noteq> 5, crcr_rdata t = 5)] \<and>
         crcr_state (run_state crcr_cycle s (p # waits @ [t])) = CRCR_IDLE"
proof -
  let ?s1 = "snd (crcr_cycle s p)"
  have s1: "crcr_state ?s1 = CRCR_WAIT_CHECK" "crcr_reset ?s1"
    using idle pulse by (simp_all add: crcr_cycle_def SDPHYCRCR_fsm_def)
  have o1: "crcr_decision (fst (crcr_cycle s p)) = (False, False)"
    using idle by (simp add: crcr_cycle_def SDPHYCRCR_fsm_def crcr_decision_def)
  let ?s2 = "run_state crcr_cycle ?s1 waits"
  have s2: "crcr_state ?s2 = CRCR_WAIT_CHECK"
    using s1(1) waits by (rule crcr_wait_state)
  have o2: "map crcr_decision (run_outs crcr_cycle ?s1 waits) = map (\<lambda>_. (False, False)) waits"
    using s1(1) waits by (rule crcr_wait_outs)
  have o3: "crcr_decision (fst (crcr_cycle ?s2 t)) = (crcr_rdata t \<noteq> 5, crcr_rdata t = 5)"
    using s2 tok by (simp add: crcr_cycle_def SDPHYCRCR_fsm_def crcr_decision_def)
  have s3: "crcr_state (snd (crcr_cycle ?s2 t)) = CRCR_IDLE"
    using s2 tok by (simp add: crcr_cycle_def SDPHYCRCR_fsm_def)
  show ?thesis
    using s1 o1 o2 o3 s3 by (simp add: run_outs_append run_state_append)
qed

theorem crc_response_decision_witness:
  "map crcr_decision (run_outs crcr_cycle crcr_regs_reset
      [\<lparr>crcr_start = True, crcr_rvalid = False, crcr_rdata = 0\<rparr>,
       \<lparr>crcr_start = False, crcr_rvalid = False, crcr_rdata = 0\<rparr>,
       \<lparr>crcr_start = False, crcr_rvalid = True, crcr_rdata = 5\<rparr>]) =
     [(False, False), (False, False), (False, True)] \<and>
   crcr_state (run_state crcr_cycle crcr_regs_reset
      [\<lparr>crcr_start = True, crcr_rvalid = False, crcr_rdata = 0\<rparr>,
       \<lparr>crcr_start = False, crcr_rvalid = False, crcr_rdata = 0\<rparr>,
       \<lparr>crcr_start = False, crcr_rvalid = True, crcr_rdata = 5\<rparr>]) = CRCR_IDLE"
proof -
  have a: "crcr_state crcr_regs_reset = CRCR_IDLE"
    by (simp add: crcr_regs_reset_def)
  have b: "crcr_start \<lparr>crcr_start = True, crcr_rvalid = False, crcr_rdata = 0\<rparr>"
    by simp
  have c: "\<forall>x \<in> set [\<lparr>crcr_start = False, crcr_rvalid = False, crcr_rdata = 0\<rparr>]. \<not> crcr_rvalid x"
    by simp
  have d: "crcr_rvalid \<lparr>crcr_start = False, crcr_rvalid = True, crcr_rdata = 5\<rparr>"
    by simp
  show ?thesis
    using crc_response_decision[OF a b c d] by simp
qed

section \<open>The command writer\<close>

lemma cmdw_line_append: "cmdw_line (xs @ ys) = cmdw_line xs @ cmdw_line ys"
  by (simp add: cmdw_line_def)

lemma replicate_snoc: "replicate (Suc n) x = replicate n x @ [x]"
  by (simp add: replicate_append_same)

lemma cmdw_idle_step_wait:
  "cmdw_state s = CMDW_IDLE \<Longrightarrow> \<not> sink_valid (queue_sink q) \<Longrightarrow>
   cmdw_cycle (s, q) () =
     (\<lparr>cmdw_pads = pads_none, cmdw_sink_ready = False, cmdw_done = True\<rparr>,
      (\<lparr>cmdw_state = CMDW_IDLE, cmdw_count = 0\<rparr>, queue_next q False))"
  by (simp add: cmdw_cycle_def SDPHYCMDW_def)

lemma cmdw_idle_step_go:
  "cmdw_state s = CMDW_IDLE \<Longrightarrow>
   cmdw_cycle (s, (0, b, l) # q) () =
     (\<lparr>cmdw_pads = pads_none, cmdw_sink_ready = False, cmdw_done = False\<rparr>,
      (\<lparr>cmdw_state = CMDW_WRITE, cmdw_count = 0\<rparr>, (0, b, l) # q))"
  by (simp add: cmdw_cycle_def SDPHYCMDW_def queue_sink_def queue_next_def)

lemma cmdw_write_step:
  "cmdw_cycle (\<lparr>cmdw_state = CMDW_WRITE, cmdw_count = c\<rparr>, (0, b, l) # q) () =
     (\<lparr>cmdw_pads = \<lparr>clk = True, cmd_oe = True, cmd_o = cmdw_bit c b, data_oe = False, data_o = 0\<rparr>,
       cmdw_sink_ready = (c = 7 \<and> \<not> l), cmdw_done = False\<rparr>,
      (\<lparr>cmdw_state = (if c = 7 then (if l then CMDW_CLK8 else CMDW_IDLE) else CMDW_WRITE),
        cmdw_count = c + 1\<rparr>,
       if c = 7 \<and> \<not> l then q else (0, b, l) # q))"
  by (simp add: cmdw_cycle_def SDPHYCMDW_def queue_sink_def queue_next_def pads_none_def)

lemma cmdw_clk8_step:
  "cmdw_cycle (\<lparr>cmdw_state = CMDW_CLK8, cmdw_count = c\<rparr>, (0, b, l) # q) () =
     (\<lparr>cmdw_pads = \<lparr>clk = True, cmd_oe = True, cmd_o = True, data_oe = False, data_o = 0\<rparr>,
       cmdw_sink_ready = (c = 7), cmdw_done = False\<rparr>,
      (\<lparr>cmdw_state = (if c = 7 then CMDW_IDLE else CMDW_CLK8), cmdw_count = c + 1\<rparr>,
       if c = 7 then q else (0, b, l) # q))"
  by (simp add: cmdw_cycle_def SDPHYCMDW_def queue_sink_def queue_next_def pads_none_def)

lemma cmdw_empty:
  "cmdw_state s = CMDW_IDLE \<Longrightarrow>
   cmdw_line (run_outs cmdw_cycle (s, []) (replicate n ())) = []"
proof (induction n arbitrary: s)
  case 0 then show ?case by (simp add: cmdw_line_def)
next
  case (Suc n)
  have st: "cmdw_cycle (s, []) () =
    (\<lparr>cmdw_pads = pads_none, cmdw_sink_ready = False, cmdw_done = True\<rparr>,
     (\<lparr>cmdw_state = CMDW_IDLE, cmdw_count = 0\<rparr>, []))"
    using Suc.prems cmdw_idle_step_wait[of s "[]"] by (simp add: queue_sink_def queue_next_def)
  show ?case
    using Suc.IH[of "\<lparr>cmdw_state = CMDW_IDLE, cmdw_count = 0\<rparr>"] st
    by (simp add: cmdw_line_def pads_none_def)
qed

lemma cmdw_gap:
  "cmdw_state s = CMDW_IDLE \<Longrightarrow>
   cmdw_state (fst (run_state cmdw_cycle (s, (g, b, l) # q) (replicate g ()))) = CMDW_IDLE \<and>
   snd (run_state cmdw_cycle (s, (g, b, l) # q) (replicate g ())) = (0, b, l) # q \<and>
   cmdw_line (run_outs cmdw_cycle (s, (g, b, l) # q) (replicate g ())) = []"
proof (induction g arbitrary: s)
  case 0 then show ?case by (simp add: cmdw_line_def)
next
  case (Suc g)
  have st: "cmdw_cycle (s, (Suc g, b, l) # q) () =
    (\<lparr>cmdw_pads = pads_none, cmdw_sink_ready = False, cmdw_done = True\<rparr>,
     (\<lparr>cmdw_state = CMDW_IDLE, cmdw_count = 0\<rparr>, (g, b, l) # q))"
    using Suc.prems cmdw_idle_step_wait[of s "(Suc g, b, l) # q"]
    by (simp add: queue_sink_def queue_next_def)
  show ?case
    using Suc.IH[of "\<lparr>cmdw_state = CMDW_IDLE, cmdw_count = 0\<rparr>"] st
    by (simp add: cmdw_line_def pads_none_def)
qed

lemma u8_of_nat_neq: "k < 7 \<Longrightarrow> (of_nat k :: u8) \<noteq> 7"
proof
  assume k: "k < 7" and e: "(of_nat k :: u8) = 7"
  have "unat (of_nat k :: u8) = k" using k by (simp add: unat_of_nat)
  then show False using e k by simp
qed

lemma cmdw_bit_of_nat: "k < 8 \<Longrightarrow> cmdw_bit (of_nat k) b = bit b (7 - k)"
  by (simp add: cmdw_bit_def unat_of_nat)

lemma cmdw_write_prefix:
  "k \<le> 7 \<Longrightarrow>
   run_state cmdw_cycle (\<lparr>cmdw_state = CMDW_WRITE, cmdw_count = 0\<rparr>, (0, b, l) # q) (replicate k ()) =
     (\<lparr>cmdw_state = CMDW_WRITE, cmdw_count = of_nat k\<rparr>, (0, b, l) # q) \<and>
   cmdw_line (run_outs cmdw_cycle (\<lparr>cmdw_state = CMDW_WRITE, cmdw_count = 0\<rparr>, (0, b, l) # q) (replicate k ())) =
     map (\<lambda>j. bit b (7 - j)) [0..<k]"
proof (induction k)
  case 0 then show ?case by (simp add: cmdw_line_def)
next
  case (Suc k)
  then have k: "k < 7" by simp
  have ih: "run_state cmdw_cycle (\<lparr>cmdw_state = CMDW_WRITE, cmdw_count = 0\<rparr>, (0, b, l) # q) (replicate k ()) =
     (\<lparr>cmdw_state = CMDW_WRITE, cmdw_count = of_nat k\<rparr>, (0, b, l) # q)"
    "cmdw_line (run_outs cmdw_cycle (\<lparr>cmdw_state = CMDW_WRITE, cmdw_count = 0\<rparr>, (0, b, l) # q) (replicate k ())) =
     map (\<lambda>j. bit b (7 - j)) [0..<k]"
    using Suc.IH k by simp_all
  have bitk: "cmdw_bit (of_nat k) b = bit b (7 - k)"
    using k by (simp add: cmdw_bit_of_nat)
  show ?case
    unfolding replicate_snoc run_state_append run_outs_append cmdw_line_append ih
    using u8_of_nat_neq[OF k] bitk
    by (simp add: cmdw_write_step cmdw_line_def)
qed

lemma cmdw_write8:
  "run_state cmdw_cycle (\<lparr>cmdw_state = CMDW_WRITE, cmdw_count = 0\<rparr>, (0, b, l) # q) (replicate 8 ()) =
     (if l then (\<lparr>cmdw_state = CMDW_CLK8, cmdw_count = 8\<rparr>, (0, b, l) # q)
      else (\<lparr>cmdw_state = CMDW_IDLE, cmdw_count = 8\<rparr>, q)) \<and>
   cmdw_line (run_outs cmdw_cycle (\<lparr>cmdw_state = CMDW_WRITE, cmdw_count = 0\<rparr>, (0, b, l) # q) (replicate 8 ())) =
     msb_bits b"
proof -
  have e: "replicate 8 () = replicate 7 () @ [()]"
    by (simp add: numeral_eq_Suc)
  have u: "[0..<8] = [0..<7] @ [7]"
    by (simp add: upt_rec)
  have b7: "cmdw_bit 7 b = bit b 0"
    using cmdw_bit_of_nat[of 7 b] by simp
  show ?thesis
    unfolding e run_state_append run_outs_append cmdw_line_append
    using cmdw_write_prefix[of 7 b l q] b7
    by (simp add: cmdw_write_step cmdw_line_def msb_bits_def u)
qed

lemma u8_sub: "c \<noteq> 7 \<Longrightarrow> unat (7 - (c + 1) :: u8) = unat (7 - c) - 1"
proof -
  assume "c \<noteq> 7"
  then have "7 - c \<noteq> 0" by simp
  then have "unat (7 - c - 1) = unat (7 - c) - 1"
    by (rule unat_minus_one)
  moreover have "7 - c - 1 = 7 - (c + 1)" by simp
  ultimately show ?thesis by (simp only:)
qed

lemma cmdw_clk8_run:
  "n = unat (7 - c) \<Longrightarrow>
   cmdw_state (fst (run_state cmdw_cycle (\<lparr>cmdw_state = CMDW_CLK8, cmdw_count = c\<rparr>, (0, b, l) # q) (replicate (Suc n) ()))) = CMDW_IDLE \<and>
   snd (run_state cmdw_cycle (\<lparr>cmdw_state = CMDW_CLK8, cmdw_count = c\<rparr>, (0, b, l) # q) (replicate (Suc n) ())) = q \<and>
   cmdw_line (run_outs cmdw_cycle (\<lparr>cmdw_state = CMDW_CLK8, cmdw_count = c\<rparr>, (0, b, l) # q) (replicate (Suc n) ())) =
     replicate (Suc n) True"
proof (induction n arbitrary: c)
  case 0
  then have "7 - c = 0" by (simp add: unat_0_iff)
  then have "c = 7" by simp
  then show ?case by (simp add: cmdw_clk8_step cmdw_line_def)
next
  case (Suc n)
  then have ne: "c \<noteq> 7" by auto
  have "n = unat (7 - (c + 1))"
    using Suc.prems u8_sub[OF ne] by simp
  from Suc.IH[OF this] ne show ?case
    by (simp add: cmdw_clk8_step cmdw_line_def)
qed

lemma cmdw_clk8_256:
  "cmdw_state (fst (run_state cmdw_cycle (\<lparr>cmdw_state = CMDW_CLK8, cmdw_count = 8\<rparr>, (0, b, l) # q) (replicate 256 ()))) = CMDW_IDLE \<and>
   snd (run_state cmdw_cycle (\<lparr>cmdw_state = CMDW_CLK8, cmdw_count = 8\<rparr>, (0, b, l) # q) (replicate 256 ())) = q \<and>
   cmdw_line (run_outs cmdw_cycle (\<lparr>cmdw_state = CMDW_CLK8, cmdw_count = 8\<rparr>, (0, b, l) # q) (replicate 256 ())) =
     replicate 256 True"
proof -
  have "(7 - 8 :: u8) = 255" by simp
  then have n: "(255::nat) = unat (7 - (8::u8))" by (simp only: unat_numeral) simp
  have e: "Suc 255 = 256" by simp
  show ?thesis
    using cmdw_clk8_run[OF n, of b l q] unfolding e .
qed

lemma byte_cycles_eq: "replicate (g + 1 + 8 + (if l then 256 else 0)) () = byte_cycles g l"
proof -
  have "replicate (g + 1 + 8 + (if l then 256 else 0)) () =
      replicate g () @ replicate 1 () @ replicate 8 () @ replicate (if l then 256 else 0) ()"
    by (simp only: replicate_add append_assoc)
  also have "\<dots> = byte_cycles g l"
    by (simp add: byte_cycles_def)
  finally show ?thesis .
qed

lemma cmdw_byte:
  assumes idle: "cmdw_state s = CMDW_IDLE"
  shows "\<exists>s'. cmdw_state s' = CMDW_IDLE \<and>
     run_state cmdw_cycle (s, (g, b, l) # q) (byte_cycles g l) = (s', q) \<and>
     cmdw_line (run_outs cmdw_cycle (s, (g, b, l) # q) (byte_cycles g l)) =
       msb_bits b @ (if l then replicate 256 True else [])"
proof -
  let ?W = "\<lparr>cmdw_state = CMDW_WRITE, cmdw_count = 0\<rparr>"
  let ?C = "\<lparr>cmdw_state = CMDW_CLK8, cmdw_count = 8\<rparr>"
  let ?q0 = "(0, b, l) # q"
  define S1 where "S1 = run_state cmdw_cycle (s, (g, b, l) # q) (replicate g ())"
  have S1: "cmdw_state (fst S1) = CMDW_IDLE" "snd S1 = ?q0"
    and L1: "cmdw_line (run_outs cmdw_cycle (s, (g, b, l) # q) (replicate g ())) = []"
    using cmdw_gap[OF idle, of g b l q] by (simp_all add: S1_def)
  have S1': "S1 = (fst S1, ?q0)"
    using S1(2) by (cases S1) simp
  have step: "cmdw_cycle S1 () =
      (\<lparr>cmdw_pads = pads_none, cmdw_sink_ready = False, cmdw_done = False\<rparr>, (?W, ?q0))"
    using cmdw_idle_step_go[OF S1(1), of b l q] S1' by simp
  have S2: "run_state cmdw_cycle S1 [()] = (?W, ?q0)"
    and L2: "cmdw_line (run_outs cmdw_cycle S1 [()]) = []"
    using step by (simp_all add: cmdw_line_def pads_none_def)
  have S3: "run_state cmdw_cycle (?W, ?q0) (replicate 8 ()) = (if l then (?C, ?q0)
      else (\<lparr>cmdw_state = CMDW_IDLE, cmdw_count = 8\<rparr>, q))"
    and L3: "cmdw_line (run_outs cmdw_cycle (?W, ?q0) (replicate 8 ())) = msb_bits b"
    using cmdw_write8[of b l q] by blast+
  show ?thesis
  proof (cases l)
    case False
    have st: "run_state cmdw_cycle (s, (g, b, l) # q) (byte_cycles g l) =
        (\<lparr>cmdw_state = CMDW_IDLE, cmdw_count = 8\<rparr>, q)"
      unfolding byte_cycles_def run_state_append S1_def[symmetric] S2
      using False S3 by simp
    have ln: "cmdw_line (run_outs cmdw_cycle (s, (g, b, l) # q) (byte_cycles g l)) = msb_bits b"
      unfolding byte_cycles_def run_state_append run_outs_append cmdw_line_append
        S1_def[symmetric] S2 L1 L2 L3
      using False by (simp add: cmdw_line_def)
    show ?thesis using st ln False by simp
  next
    case True
    define S4 where "S4 = run_state cmdw_cycle (?C, ?q0) (replicate 256 ())"
    have S4: "cmdw_state (fst S4) = CMDW_IDLE" "snd S4 = q"
      and L4: "cmdw_line (run_outs cmdw_cycle (?C, ?q0) (replicate 256 ())) = replicate 256 True"
      using cmdw_clk8_256[of b l q] by (simp_all add: S4_def)
    have S4': "S4 = (fst S4, q)"
      using S4(2) by (cases S4) simp
    have S3': "run_state cmdw_cycle (?W, ?q0) (replicate 8 ()) = (?C, ?q0)"
      using S3 True by simp
    have bc: "byte_cycles g l = replicate g () @ [()] @ replicate 8 () @ replicate 256 ()"
      using True by (simp add: byte_cycles_def)
    have st: "run_state cmdw_cycle (s, (g, b, l) # q) (byte_cycles g l) = (fst S4, q)"
      unfolding bc run_state_append S1_def[symmetric] S2 S3' S4_def[symmetric]
      using S4' by simp
    have ln: "cmdw_line (run_outs cmdw_cycle (s, (g, b, l) # q) (byte_cycles g l)) =
        msb_bits b @ replicate 256 True"
      unfolding bc run_state_append run_outs_append cmdw_line_append
        S1_def[symmetric] S2 S3' L1 L2 L3 L4
      by simp
    show ?thesis using st ln S4(1) True by auto
  qed
qed


lemma cmdw_run_queue:
  "cmdw_state s = CMDW_IDLE \<Longrightarrow> cmdw_cycles q \<le> n \<Longrightarrow>
   cmdw_line (run_outs cmdw_cycle (s, q) (replicate n ())) = cmdw_expected 256 q"
proof (induction q arbitrary: s n)
  case Nil
  then show ?case by (simp add: cmdw_empty cmdw_expected_def)
next
  case (Cons x q)
  obtain g b l where x: "x = (g, b, l)" by (cases x) auto
  define k where "k = g + 1 + 8 + (if l then 256 else (0::nat))"
  obtain m where n: "n = k + m" and m: "cmdw_cycles q \<le> m"
    using Cons.prems(2) x by (auto simp add: k_def le_iff_add)
  have r: "replicate n () = byte_cycles g l @ replicate m ()"
    unfolding n replicate_add k_def byte_cycles_eq[symmetric] ..
  obtain s' where s': "cmdw_state s' = CMDW_IDLE"
    and st: "run_state cmdw_cycle (s, (g, b, l) # q) (byte_cycles g l) = (s', q)"
    and ln: "cmdw_line (run_outs cmdw_cycle (s, (g, b, l) # q) (byte_cycles g l)) =
       msb_bits b @ (if l then replicate 256 True else [])"
    using cmdw_byte[OF Cons.prems(1), of g b l q] by blast
  have "cmdw_line (run_outs cmdw_cycle (s', q) (replicate m ())) = cmdw_expected 256 q"
    using s' m by (rule Cons.IH)
  then show ?case
    unfolding x r run_outs_append cmdw_line_append st ln
    by (simp add: cmdw_expected_def)
qed

lemma msb_bits_A5: "msb_bits 0xA5 = [True, False, True, False, False, True, False, True]"
  by (simp add: msb_bits_def upt_rec)

text \<open>
  C1 at the input of one byte \<open>0xA5\<close> marked \<open>last\<close>: the eight bits of the byte appear
  on the command line most significant first, and they are followed by 256 cycles with
  the line high, not by 8.  State WRITE leaves \<open>count\<close> at 8 when it enters CLK8, and CLK8
  ends when \<open>count\<close> is 7, after the 8-bit counter has wrapped around.
\<close>

theorem cmdw_last_byte_trailer:
  "cmdw_sim 300 [(0, 0xA5, True)] =
     [True, False, True, False, False, True, False, True] @ replicate 256 True"
proof -
  have "cmdw_sim 300 [(0, 0xA5, True)] = cmdw_expected 256 [(0, 0xA5, True)]"
    unfolding cmdw_sim_def
    by (rule cmdw_run_queue) (simp_all add: cmdw_reset_def)
  then show ?thesis
    by (simp add: cmdw_expected_def msb_bits_A5)
qed

section \<open>The data reader\<close>

lemma datar_items_append:
  "datar_items t s (xs @ ys) = datar_items t s xs @ datar_items t (run_state (datar_emit t) s xs) ys"
  by (simp add: datar_items_def run_outs_append)

lemma datar_items_Cons:
  "datar_items t s (x # xs) = fst (datar_emit t s x) @ datar_items t (snd (datar_emit t s x)) xs"
  by (simp add: datar_items_def)

lemma datar_items_Nil: "datar_items t s [] = []"
  by (simp add: datar_items_def)

lemma u32_dec: "(t::u32) \<noteq> 0 \<Longrightarrow> unat (t - 1) = unat t - 1"
  by (rule unat_minus_one)

lemma u32_pos: "0 < unat (t::u32) \<Longrightarrow> t \<noteq> 0"
  by (simp add: unat_gt_0)

lemma datar_wait_run:
  "datar_state s = DATAR_WAIT \<Longrightarrow> \<forall>x \<in> set ws. \<not> datar_rvalid x \<Longrightarrow>
   length ws \<le> unat (datar_timeout s) \<Longrightarrow>
   datar_state (run_state (datar_emit t) s ws) = DATAR_WAIT \<and>
   datar_count (run_state (datar_emit t) s ws) = datar_count s \<and>
   unat (datar_timeout (run_state (datar_emit t) s ws)) = unat (datar_timeout s) - length ws \<and>
   datar_items t s ws = []"
proof (induction ws arbitrary: s)
  case Nil
  then show ?case by (simp add: datar_items_def)
next
  case (Cons w ws)
  have ne: "datar_timeout s \<noteq> 0"
    using Cons.prems(3) by (intro u32_pos) simp
  let ?s1 = "snd (datar_emit t s w)"
  have s1: "datar_state ?s1 = DATAR_WAIT" "datar_count ?s1 = datar_count s"
    "datar_timeout ?s1 = datar_timeout s - 1" "fst (datar_emit t s w) = []"
    using Cons.prems(1,2) ne
    by (simp_all add: datar_emit_def datar_fsm_cycle_def SDPHYDATAR_fsm_def source_none_def)
  have t1: "unat (datar_timeout ?s1) = unat (datar_timeout s) - 1"
    using s1(3) u32_dec[OF ne] by simp
  have "length ws \<le> unat (datar_timeout ?s1)"
    using t1 Cons.prems(3) by simp
  from Cons.IH[OF s1(1) _ this] Cons.prems(2) s1 t1 show ?case
    by (simp add: datar_items_Cons)
qed

lemma u10_last: "unat (n::u10) \<le> 1016 \<Longrightarrow> unat (n + 8 - 1) = unat n + 7"
proof -
  assume n: "unat n \<le> 1016"
  have e: "n + 8 - 1 = n + 7" by simp
  have "unat n + unat (7::u10) < 2 ^ LENGTH(10)" using n by simp
  then have "unat (n + 7) = unat n + unat (7::u10)"
    by (simp only: unat_add_lem)
  then show ?thesis by (simp add: e)
qed

lemma u10_suc: "unat (c::u10) < 1023 \<Longrightarrow> unat (c + 1) = unat c + 1"
proof -
  assume c: "unat c < 1023"
  have "unat c + unat (1::u10) < 2 ^ LENGTH(10)" using c by simp
  then have "unat (c + 1) = unat c + unat (1::u10)"
    by (simp only: unat_add_lem)
  then show ?thesis by simp
qed

lemma datar_data_run:
  "datar_state s = DATAR_DATA \<Longrightarrow> unat n \<le> 1016 \<Longrightarrow>
   \<forall>x \<in> set ds. datar_request n l x \<Longrightarrow>
   length ds \<le> unat (datar_timeout s) \<Longrightarrow>
   unat (datar_count s) + length (filter datar_xfer ds) \<le> unat n + 7 \<Longrightarrow>
   datar_state (run_state (datar_emit t) s ds) = DATAR_DATA \<and>
   unat (datar_count (run_state (datar_emit t) s ds)) =
     unat (datar_count s) + length (filter datar_xfer ds) \<and>
   unat (datar_timeout (run_state (datar_emit t) s ds)) = unat (datar_timeout s) - length ds \<and>
   datar_items t s ds = map (\<lambda>x. ok_item False (datar_rdata x)) (filter datar_xfer ds)"
proof (induction ds arbitrary: s)
  case Nil
  then show ?case by (simp add: datar_items_def)
next
  case (Cons d ds)
  have ne: "datar_timeout s \<noteq> 0"
    using Cons.prems(4) by (intro u32_pos) simp
  have req: "datar_sink_block_length (fst d) = n" "datar_sink_last (fst d) = l"
    using Cons.prems(3) by (simp_all add: datar_request_def)
  let ?s1 = "snd (datar_emit t s d)"
  show ?case
  proof (cases "datar_xfer d")
    case False
    have s1: "datar_state ?s1 = DATAR_DATA" "datar_count ?s1 = datar_count s"
      "datar_timeout ?s1 = datar_timeout s - 1" "fst (datar_emit t s d) = []"
      using Cons.prems(1) ne False
      by (auto simp add: datar_emit_def datar_fsm_cycle_def SDPHYDATAR_fsm_def Let_def
          datar_xfer_def)
    have t1: "unat (datar_timeout ?s1) = unat (datar_timeout s) - 1"
      using s1(3) u32_dec[OF ne] by simp
    have a: "length ds \<le> unat (datar_timeout ?s1)"
      using t1 Cons.prems(4) by simp
    have b: "unat (datar_count ?s1) + length (filter datar_xfer ds) \<le> unat n + 7"
      using Cons.prems(5) False s1(2) by simp
    from Cons.IH[OF s1(1) Cons.prems(2) _ a b] Cons.prems(3) s1 t1 False show ?thesis
      by (simp add: datar_items_Cons)
  next
    case True
    have lt: "unat (datar_count s) < unat n + 7"
      using Cons.prems(5) True by simp
    then have nl: "datar_count s \<noteq> n + 8 - 1"
      using u10_last[OF Cons.prems(2)] by auto
    have c1: "unat (datar_count s + 1) = unat (datar_count s) + 1"
      using lt Cons.prems(2) by (intro u10_suc) simp
    have s1: "datar_state ?s1 = DATAR_DATA" "datar_count ?s1 = datar_count s + 1"
      "datar_timeout ?s1 = datar_timeout s - 1"
      "fst (datar_emit t s d) = [ok_item False (datar_rdata d)]"
      using Cons.prems(1) ne True nl req
      by (auto simp add: datar_emit_def datar_fsm_cycle_def SDPHYDATAR_fsm_def Let_def
          datar_xfer_def ok_item_def)
    have t1: "unat (datar_timeout ?s1) = unat (datar_timeout s) - 1"
      using s1(3) u32_dec[OF ne] by simp
    have a: "length ds \<le> unat (datar_timeout ?s1)"
      using t1 Cons.prems(4) by simp
    have b: "unat (datar_count ?s1) + length (filter datar_xfer ds) \<le> unat n + 7"
      using Cons.prems(5) True s1(2) c1 by simp
    from Cons.IH[OF s1(1) Cons.prems(2) _ a b] Cons.prems(3) s1 t1 True c1 show ?thesis
      by (simp add: datar_items_Cons)
  qed
qed

lemma run_state_snoc: "run_state f s (xs @ [x]) = snd (f (run_state f s xs) x)"
  by (simp add: run_state_append)

lemma u10_of_nat_39: "k < 40 \<Longrightarrow> ((of_nat k :: u10) = 39) = (k = 39)"
proof -
  assume k: "k < 40"
  have u: "unat (of_nat k :: u10) = k" using k by (simp add: unat_of_nat)
  show ?thesis
  proof
    assume "(of_nat k :: u10) = 39"
    then have "unat (of_nat k :: u10) = 39" by simp
    then show "k = 39" using u by simp
  next
    assume "k = 39" then show "(of_nat k :: u10) = 39" by simp
  qed
qed

lemma datar_last_step:
  assumes st: "datar_state s = DATAR_DATA" and n: "unat n \<le> 1016"
    and req: "datar_request n l x" and x: "datar_xfer x"
    and c: "unat (datar_count s) = unat n + 7" and tmo: "0 < unat (datar_timeout s)"
  shows "fst (datar_emit t s x) = [ok_item True (datar_rdata x)]"
    and "datar_state (snd (datar_emit t s x)) = (if l then DATAR_CLK40 else DATAR_IDLE)"
    and "l \<Longrightarrow> datar_count (snd (datar_emit t s x)) = 0"
    and "datar_sink_ready (fst (datar_fsm_cycle t s x))"
proof -
  have ne: "datar_timeout s \<noteq> 0" using tmo by (rule u32_pos)
  have "unat (datar_count s) = unat (n + 8 - 1)"
    using c u10_last[OF n] by simp
  then have la: "datar_count s = n + 8 - 1"
    by (simp only: word_unat_eq_iff)
  have r: "datar_sink_block_length (fst x) = n" "datar_sink_last (fst x) = l"
    using req by (simp_all add: datar_request_def)
  show "fst (datar_emit t s x) = [ok_item True (datar_rdata x)]"
    using st ne la r x
    by (auto simp add: datar_emit_def datar_fsm_cycle_def SDPHYDATAR_fsm_def Let_def
        datar_xfer_def ok_item_def)
  show "datar_state (snd (datar_emit t s x)) = (if l then DATAR_CLK40 else DATAR_IDLE)"
    using st ne la r x
    by (auto simp add: datar_emit_def datar_fsm_cycle_def SDPHYDATAR_fsm_def Let_def
        datar_xfer_def)
  show "l \<Longrightarrow> datar_count (snd (datar_emit t s x)) = 0"
    using st ne la r x
    by (auto simp add: datar_emit_def datar_fsm_cycle_def SDPHYDATAR_fsm_def Let_def
        datar_xfer_def)
  show "datar_sink_ready (fst (datar_fsm_cycle t s x))"
    using st ne la r x
    by (auto simp add: datar_fsm_cycle_def SDPHYDATAR_fsm_def Let_def datar_xfer_def)
qed

lemma datar_clk40_run:
  "datar_state s = DATAR_CLK40 \<Longrightarrow> datar_count s = 0 \<Longrightarrow> length tr \<le> 40 \<Longrightarrow>
   (if length tr < 40
    then datar_state (run_state (datar_emit t) s tr) = DATAR_CLK40 \<and>
         datar_count (run_state (datar_emit t) s tr) = of_nat (length tr)
    else datar_state (run_state (datar_emit t) s tr) = DATAR_IDLE) \<and>
   datar_items t s tr = []"
proof (induction tr rule: rev_induct)
  case Nil
  then show ?case by (simp add: datar_items_def)
next
  case (snoc x xs)
  let ?s = "run_state (datar_emit t) s xs"
  have k: "length xs < 40" using snoc.prems(3) by simp
  have ih: "datar_state ?s = DATAR_CLK40" "datar_count ?s = of_nat (length xs)"
    "datar_items t s xs = []"
    using snoc.IH[OF snoc.prems(1,2)] k by simp_all
  have e: "(datar_count ?s = 39) = (length xs = 39)"
    using ih(2) u10_of_nat_39[OF k] by simp
  have st: "datar_state (snd (datar_emit t ?s x)) =
      (if length xs = 39 then DATAR_IDLE else DATAR_CLK40)"
    "datar_count (snd (datar_emit t ?s x)) = of_nat (length xs) + 1"
    "fst (datar_emit t ?s x) = []"
    using ih(1,2) e
    by (simp_all add: datar_emit_def datar_fsm_cycle_def SDPHYDATAR_fsm_def source_none_def)
  show ?case
    using st ih(3) k
    by (auto simp add: run_state_snoc datar_items_append datar_items_Cons datar_items_Nil)
qed

lemma datar_clk40_clk:
  "datar_state s = DATAR_CLK40 \<Longrightarrow> clk (datar_pads (fst (datar_fsm_cycle t s x)))"
  by (simp add: datar_fsm_cycle_def SDPHYDATAR_fsm_def)

lemma datar_idle_step:
  "datar_state s = DATAR_IDLE \<Longrightarrow> datar_sink_valid (fst x) \<Longrightarrow>
   snd (datar_emit t s x) =
     \<lparr>datar_state = DATAR_WAIT, datar_timeout = t, datar_count = 0, datar_reset = True\<rparr> \<and>
   fst (datar_emit t s x) = []"
  by (simp add: datar_emit_def datar_fsm_cycle_def SDPHYDATAR_fsm_def source_none_def)

lemma datar_wait_step:
  "datar_state s = DATAR_WAIT \<Longrightarrow> datar_rvalid x \<Longrightarrow> 0 < unat (datar_timeout s) \<Longrightarrow>
   datar_state (snd (datar_emit t s x)) = DATAR_DATA \<and>
   datar_count (snd (datar_emit t s x)) = datar_count s \<and>
   unat (datar_timeout (snd (datar_emit t s x))) = unat (datar_timeout s) - 1 \<and>
   fst (datar_emit t s x) = []"
proof -
  assume st: "datar_state s = DATAR_WAIT" and v: "datar_rvalid x"
    and tmo: "0 < unat (datar_timeout s)"
  have ne: "datar_timeout s \<noteq> 0" using tmo by (rule u32_pos)
  show ?thesis
    using st v ne u32_dec[OF ne]
    by (simp add: datar_emit_def datar_fsm_cycle_def SDPHYDATAR_fsm_def source_none_def)
qed

text \<open>
  The state machine alone, with the bytes its reader delivers as an input, inside the
  range of the byte counter: a request for a block of \<open>n\<close> bytes with \<open>n \<le> 1016\<close>, taken
  in IDLE and held until it is consumed.  The reader delivers nothing during the cycles \<open>ws\<close>, its
  first byte appears in cycle \<open>w1\<close>, and the cycles \<open>pre @ [fin]\<close> hold \<open>n + 8\<close> handovers
  of which the last is in cycle \<open>fin\<close>; the timeout counter does not run out.  Then the
  result stream receives exactly \<open>n + 8\<close> items with status \<open>OK\<close>, the reader's bytes in
  order, with \<open>last\<close> on the final one only.  If the request is marked \<open>last\<close> the
  machine then spends exactly 40 cycles in CLK40 with the line clock enabled, emitting
  nothing, and is idle after them; otherwise it is idle at once.
\<close>

theorem datar_block:
  assumes n: "unat n \<le> 1016"
    and idle: "datar_state s = DATAR_IDLE"
    and req: "\<forall>x \<in> set (i0 # ws @ [w1] @ pre @ [fin]). datar_request n l x"
    and ws: "\<forall>x \<in> set ws. \<not> datar_rvalid x"
    and w1: "datar_rvalid w1"
    and pre: "length (filter datar_xfer pre) = unat n + 7"
    and fin: "datar_xfer fin"
    and tmo: "length (ws @ [w1] @ pre @ [fin]) \<le> unat treset"
    and tail: "length tail = 40"
  shows "datar_items treset s (i0 # ws @ [w1] @ pre @ [fin]) =
           map (\<lambda>x. ok_item False (datar_rdata x)) (filter datar_xfer pre) @
             [ok_item True (datar_rdata fin)] \<and>
         length (datar_items treset s (i0 # ws @ [w1] @ pre @ [fin])) = unat n + 8 \<and>
         datar_state (run_state (datar_emit treset) s (i0 # ws @ [w1] @ pre @ [fin])) =
           (if l then DATAR_CLK40 else DATAR_IDLE) \<and>
         (l \<longrightarrow>
            (\<forall>k < 40.
               datar_state (run_state (datar_emit treset) s
                  ((i0 # ws @ [w1] @ pre @ [fin]) @ take k tail)) = DATAR_CLK40 \<and>
               clk (datar_pads (fst (datar_fsm_cycle treset
                  (run_state (datar_emit treset) s
                     ((i0 # ws @ [w1] @ pre @ [fin]) @ take k tail)) (tail ! k)))) \<and>
               datar_items treset s ((i0 # ws @ [w1] @ pre @ [fin]) @ take k tail) =
                 datar_items treset s (i0 # ws @ [w1] @ pre @ [fin])) \<and>
            datar_state (run_state (datar_emit treset) s
               ((i0 # ws @ [w1] @ pre @ [fin]) @ tail)) = DATAR_IDLE)"
proof -
  let ?E = "datar_emit treset"
  let ?ins = "i0 # ws @ [w1] @ pre @ [fin]"
  define s1 where "s1 = snd (?E s i0)"
  define s2 where "s2 = run_state ?E s1 ws"
  define s3 where "s3 = snd (?E s2 w1)"
  define s4 where "s4 = run_state ?E s3 pre"
  define s5 where "s5 = snd (?E s4 fin)"
  have r0: "datar_sink_valid (fst i0)"
    using req by (simp add: datar_request_def)
  have a1: "datar_state s1 = DATAR_WAIT" "datar_timeout s1 = treset" "datar_count s1 = 0"
    and i1: "fst (?E s i0) = []"
    using datar_idle_step[OF idle r0, of treset] by (simp_all add: s1_def)
  have l2: "length ws \<le> unat (datar_timeout s1)"
    using tmo a1(2) by simp
  have a2: "datar_state s2 = DATAR_WAIT" "datar_count s2 = 0"
    "unat (datar_timeout s2) = unat treset - length ws"
    and i2: "datar_items treset s1 ws = []"
    using datar_wait_run[OF a1(1) ws l2, of treset] a1 by (simp_all add: s2_def)
  have p3: "0 < unat (datar_timeout s2)"
    using a2(3) tmo by simp
  have a3: "datar_state s3 = DATAR_DATA" "datar_count s3 = 0"
    "unat (datar_timeout s3) = unat treset - length ws - 1"
    and i3: "fst (?E s2 w1) = []"
    using datar_wait_step[OF a2(1) w1 p3, of treset] a2 by (simp_all add: s3_def)
  have r4: "\<forall>x \<in> set pre. datar_request n l x"
    using req by simp
  have l4: "length pre \<le> unat (datar_timeout s3)"
    using a3(3) tmo by simp
  have c4: "unat (datar_count s3) + length (filter datar_xfer pre) \<le> unat n + 7"
    using a3(2) pre by simp
  have a4: "datar_state s4 = DATAR_DATA" "unat (datar_count s4) = unat n + 7"
    "unat (datar_timeout s4) = unat treset - length ws - 1 - length pre"
    and i4: "datar_items treset s3 pre =
       map (\<lambda>x. ok_item False (datar_rdata x)) (filter datar_xfer pre)"
    using datar_data_run[OF a3(1) n r4 l4 c4, of treset] a3 pre by (simp_all add: s4_def)
  have r5: "datar_request n l fin"
    using req by simp
  have p5: "0 < unat (datar_timeout s4)"
    using a4(3) tmo by simp
  note fs = datar_last_step[OF a4(1) n r5 fin a4(2) p5, of treset]
  have a5: "datar_state s5 = (if l then DATAR_CLK40 else DATAR_IDLE)"
    and c5: "l \<Longrightarrow> datar_count s5 = 0"
    and i5: "fst (?E s4 fin) = [ok_item True (datar_rdata fin)]"
    using fs by (simp_all add: s5_def)
  have st: "run_state ?E s ?ins = s5"
    by (simp add: run_state_append s1_def s2_def s3_def s4_def s5_def)
  have it: "datar_items treset s ?ins =
      map (\<lambda>x. ok_item False (datar_rdata x)) (filter datar_xfer pre) @
        [ok_item True (datar_rdata fin)]"
    using i1 i2 i3 i4 i5
    by (simp add: datar_items_Cons datar_items_append datar_items_Nil
        s1_def[symmetric] s2_def[symmetric] s3_def[symmetric] s4_def[symmetric])
  have len: "length (datar_items treset s ?ins) = unat n + 8"
    unfolding it using pre by simp
  have tr: "l \<longrightarrow>
      (\<forall>k < 40.
         datar_state (run_state ?E s (?ins @ take k tail)) = DATAR_CLK40 \<and>
         clk (datar_pads (fst (datar_fsm_cycle treset
            (run_state ?E s (?ins @ take k tail)) (tail ! k)))) \<and>
         datar_items treset s (?ins @ take k tail) = datar_items treset s ?ins) \<and>
      datar_state (run_state ?E s (?ins @ tail)) = DATAR_IDLE"
  proof
    assume l: l
    then have c40: "datar_state s5 = DATAR_CLK40" "datar_count s5 = 0"
      using a5 c5 by simp_all
    have e0: "run_state ?E s (?ins @ tail) = run_state ?E s5 tail"
      by (simp only: run_state_append[of _ _ ?ins] st)
    have full: "datar_state (run_state ?E s (?ins @ tail)) = DATAR_IDLE"
      unfolding e0 using datar_clk40_run[OF c40, of tail treset] tail by simp
    have part: "datar_state (run_state ?E s (?ins @ take k tail)) = DATAR_CLK40 \<and>
         clk (datar_pads (fst (datar_fsm_cycle treset
            (run_state ?E s (?ins @ take k tail)) (tail ! k)))) \<and>
         datar_items treset s (?ins @ take k tail) = datar_items treset s ?ins"
      if k: "k < 40" for k
    proof -
      have lk: "length (take k tail) = k" using k tail by simp
      have q: "datar_state (run_state ?E s5 (take k tail)) = DATAR_CLK40"
        "datar_items treset s5 (take k tail) = []"
        using datar_clk40_run[OF c40, of "take k tail" treset] lk k by simp_all
      have e: "run_state ?E s (?ins @ take k tail) = run_state ?E s5 (take k tail)"
        by (simp only: run_state_append[of _ _ ?ins] st)
      have i: "datar_items treset s (?ins @ take k tail) = datar_items treset s ?ins"
        by (simp only: datar_items_append[of _ _ ?ins] st q(2) append_Nil2)
      show ?thesis
        unfolding e i
        using q(1) datar_clk40_clk[of "run_state ?E s5 (take k tail)" treset "tail ! k"]
        by simp
    qed
    show "(\<forall>k < 40.
         datar_state (run_state ?E s (?ins @ take k tail)) = DATAR_CLK40 \<and>
         clk (datar_pads (fst (datar_fsm_cycle treset
            (run_state ?E s (?ins @ take k tail)) (tail ! k)))) \<and>
         datar_items treset s (?ins @ take k tail) = datar_items treset s ?ins) \<and>
      datar_state (run_state ?E s (?ins @ tail)) = DATAR_IDLE"
      using part full by blast
  qed
  have a5': "datar_state (run_state ?E s ?ins) = (if l then DATAR_CLK40 else DATAR_IDLE)"
    unfolding st by (rule a5)
  from it len a5' tr show ?thesis
    by (intro conjI) assumption+
qed

text \<open>
  The state machine alone at a request for 1017 bytes.  The
  10-bit comparison \<open>count == block_length + 8 - 1\<close> wraps to \<open>count == 0\<close>, so the first
  byte is marked \<open>last\<close> and ends the request: one item, not 1025.
\<close>

theorem datar_block_counterexample:
  "datar_items 250000 (datar_regs_reset 250000)
     [datar_example_cycle 1017, datar_example_cycle 1017, datar_example_cycle 1017] =
     [ok_item True 0x42] \<and>
   datar_state (run_state (datar_emit 250000) (datar_regs_reset 250000)
     [datar_example_cycle 1017, datar_example_cycle 1017, datar_example_cycle 1017]) =
     DATAR_CLK40"
  by (simp add: datar_items_def datar_emit_def datar_fsm_cycle_def SDPHYDATAR_fsm_def
      datar_regs_reset_def datar_example_cycle_def datar_rvalid_def datar_rdata_def
      ok_item_def source_none_def Let_def)

theorem datar_block_witness:
  "datar_items 250000 (datar_regs_reset 250000)
     (datar_example_cycle 512 # [] @ [datar_example_cycle 512] @
        replicate 519 (datar_example_cycle 512) @ [datar_example_cycle 512]) =
     map (\<lambda>x. ok_item False (datar_rdata x))
       (filter datar_xfer (replicate 519 (datar_example_cycle 512))) @
     [ok_item True 0x42] \<and>
   length (datar_items 250000 (datar_regs_reset 250000)
     (datar_example_cycle 512 # [] @ [datar_example_cycle 512] @
        replicate 519 (datar_example_cycle 512) @ [datar_example_cycle 512])) = 520 \<and>
   datar_state (run_state (datar_emit 250000) (datar_regs_reset 250000)
     ((datar_example_cycle 512 # [] @ [datar_example_cycle 512] @
        replicate 519 (datar_example_cycle 512) @ [datar_example_cycle 512]) @
      replicate 40 (datar_example_cycle 512))) = DATAR_IDLE"
proof -
  let ?x = "datar_example_cycle 512"
  have x: "datar_xfer ?x" "datar_rvalid ?x" "datar_request 512 True ?x" "datar_rdata ?x = 0x42"
    by (simp_all add: datar_example_cycle_def datar_xfer_def datar_rvalid_def
        datar_request_def datar_rdata_def)
  have h1: "unat (512::u10) \<le> 1016" by simp
  have h2: "datar_state (datar_regs_reset 250000) = DATAR_IDLE"
    by (simp add: datar_regs_reset_def)
  have h3: "\<forall>y \<in> set (?x # [] @ [?x] @ replicate 519 ?x @ [?x]). datar_request 512 True y"
    using x(3) by simp
  have h4: "\<forall>y \<in> set []. \<not> datar_rvalid y" by simp
  have h6: "length (filter datar_xfer (replicate 519 ?x)) = unat (512::u10) + 7"
    using x(1) by simp
  have h8: "length ([] @ [?x] @ replicate 519 ?x @ [?x]) \<le> unat (250000::u32)" by simp
  have h9: "length (replicate 40 ?x) = 40" by simp
  have u: "unat (512::u10) + 8 = 520" by simp
  note T = datar_block[OF h1 h2 h3 h4 x(2) h6 x(1) h8 h9]
  have a: "datar_items 250000 (datar_regs_reset 250000)
     (?x # [] @ [?x] @ replicate 519 ?x @ [?x]) =
     map (\<lambda>x. ok_item False (datar_rdata x)) (filter datar_xfer (replicate 519 ?x)) @
     [ok_item True 0x42]"
    by (rule T[THEN conjunct1, unfolded x(4)])
  have b: "length (datar_items 250000 (datar_regs_reset 250000)
     (?x # [] @ [?x] @ replicate 519 ?x @ [?x])) = 520"
    using T[THEN conjunct2, THEN conjunct1] u by (simp only:)
  have c: "datar_state (run_state (datar_emit 250000) (datar_regs_reset 250000)
     ((?x # [] @ [?x] @ replicate 519 ?x @ [?x]) @ replicate 40 ?x)) = DATAR_IDLE"
    using T by blast
  from a b c show ?thesis by (intro conjI) assumption+
qed

section \<open>The command reader\<close>

lemma cmdr_items_append:
  "cmdr_items t s (xs @ ys) = cmdr_items t s xs @ cmdr_items t (run_state (cmdr_emit t) s xs) ys"
  by (simp add: cmdr_items_def run_outs_append)

lemma cmdr_items_Cons:
  "cmdr_items t s (x # xs) = fst (cmdr_emit t s x) @ cmdr_items t (snd (cmdr_emit t s x)) xs"
  by (simp add: cmdr_items_def)

lemma cmdr_items_Nil: "cmdr_items t s [] = []"
  by (simp add: cmdr_items_def)

lemma cmdr_idle_step:
  "cmdr_state s = CMDR_IDLE \<Longrightarrow> cmdr_sink_valid (fst x) \<Longrightarrow> cmdr_cmdw_done (fst x) \<Longrightarrow>
   snd (cmdr_emit t s x) =
     \<lparr>cmdr_state = CMDR_WAIT, cmdr_timeout = t, cmdr_count = 0, cmdr_reset = True\<rparr> \<and>
   fst (cmdr_emit t s x) = []"
  by (simp add: cmdr_emit_def cmdr_fsm_cycle_def SDPHYCMDR_fsm_def source_none_def)

lemma cmdr_wait_run:
  "cmdr_state s = CMDR_WAIT \<Longrightarrow> \<forall>x \<in> set ws. \<not> cmdr_rvalid x \<Longrightarrow>
   length ws \<le> unat (cmdr_timeout s) \<Longrightarrow>
   cmdr_state (run_state (cmdr_emit t) s ws) = CMDR_WAIT \<and>
   cmdr_count (run_state (cmdr_emit t) s ws) = cmdr_count s \<and>
   unat (cmdr_timeout (run_state (cmdr_emit t) s ws)) = unat (cmdr_timeout s) - length ws \<and>
   cmdr_items t s ws = []"
proof (induction ws arbitrary: s)
  case Nil
  then show ?case by (simp add: cmdr_items_def)
next
  case (Cons w ws)
  have ne: "cmdr_timeout s \<noteq> 0"
    using Cons.prems(3) by (intro u32_pos) simp
  let ?s1 = "snd (cmdr_emit t s w)"
  have s1: "cmdr_state ?s1 = CMDR_WAIT" "cmdr_count ?s1 = cmdr_count s"
    "cmdr_timeout ?s1 = cmdr_timeout s - 1" "fst (cmdr_emit t s w) = []"
    using Cons.prems(1,2) ne
    by (simp_all add: cmdr_emit_def cmdr_fsm_cycle_def SDPHYCMDR_fsm_def source_none_def)
  have t1: "unat (cmdr_timeout ?s1) = unat (cmdr_timeout s) - 1"
    using s1(3) u32_dec[OF ne] by simp
  have "length ws \<le> unat (cmdr_timeout ?s1)"
    using t1 Cons.prems(3) by simp
  from Cons.IH[OF s1(1) _ this] Cons.prems(2) s1 t1 show ?case
    by (simp add: cmdr_items_Cons)
qed

lemma cmdr_wait_step:
  "cmdr_state s = CMDR_WAIT \<Longrightarrow> cmdr_rvalid x \<Longrightarrow> 0 < unat (cmdr_timeout s) \<Longrightarrow>
   cmdr_state (snd (cmdr_emit t s x)) = CMDR_CMD \<and>
   cmdr_count (snd (cmdr_emit t s x)) = cmdr_count s \<and>
   unat (cmdr_timeout (snd (cmdr_emit t s x))) = unat (cmdr_timeout s) - 1 \<and>
   fst (cmdr_emit t s x) = []"
proof -
  assume st: "cmdr_state s = CMDR_WAIT" and v: "cmdr_rvalid x"
    and tmo: "0 < unat (cmdr_timeout s)"
  have ne: "cmdr_timeout s \<noteq> 0" using tmo by (rule u32_pos)
  show ?thesis
    using st v ne u32_dec[OF ne]
    by (simp add: cmdr_emit_def cmdr_fsm_cycle_def SDPHYCMDR_fsm_def source_none_def)
qed

lemma u8_suc: "unat (c::u8) < 255 \<Longrightarrow> unat (c + 1) = unat c + 1"
proof -
  assume c: "unat c < 255"
  have "unat c + unat (1::u8) < 2 ^ LENGTH(8)" using c by simp
  then have "unat (c + 1) = unat c + unat (1::u8)"
    by (simp only: unat_add_lem)
  then show ?thesis by simp
qed

lemma u8_le_255: "unat (c::u8) \<le> 255"
  using unsigned_less[of c, where 'a = nat] by simp

lemma cmdr_cmd_run:
  "cmdr_state s = CMDR_CMD \<Longrightarrow>
   \<forall>x \<in> set ds. cmdr_request n l x \<Longrightarrow>
   length ds \<le> unat (cmdr_timeout s) \<Longrightarrow>
   unat (cmdr_count s) + length (filter cmdr_xfer ds) \<le> unat (n - 1) \<Longrightarrow>
   cmdr_state (run_state (cmdr_emit t) s ds) = CMDR_CMD \<and>
   unat (cmdr_count (run_state (cmdr_emit t) s ds)) =
     unat (cmdr_count s) + length (filter cmdr_xfer ds) \<and>
   unat (cmdr_timeout (run_state (cmdr_emit t) s ds)) = unat (cmdr_timeout s) - length ds \<and>
   cmdr_items t s ds = map (\<lambda>x. ok_item False (cmdr_rdata x)) (filter cmdr_xfer ds)"
proof (induction ds arbitrary: s)
  case Nil
  then show ?case by (simp add: cmdr_items_def)
next
  case (Cons d ds)
  have ne: "cmdr_timeout s \<noteq> 0"
    using Cons.prems(3) by (intro u32_pos) simp
  have req: "cmdr_sink_length (fst d) = n" "cmdr_sink_last (fst d) = l"
    using Cons.prems(2) by (simp_all add: cmdr_request_def)
  let ?s1 = "snd (cmdr_emit t s d)"
  show ?case
  proof (cases "cmdr_xfer d")
    case False
    have s1: "cmdr_state ?s1 = CMDR_CMD" "cmdr_count ?s1 = cmdr_count s"
      "cmdr_timeout ?s1 = cmdr_timeout s - 1" "fst (cmdr_emit t s d) = []"
      using Cons.prems(1) ne False
      by (auto simp add: cmdr_emit_def cmdr_fsm_cycle_def SDPHYCMDR_fsm_def Let_def
          cmdr_xfer_def)
    have t1: "unat (cmdr_timeout ?s1) = unat (cmdr_timeout s) - 1"
      using s1(3) u32_dec[OF ne] by simp
    have a: "length ds \<le> unat (cmdr_timeout ?s1)"
      using t1 Cons.prems(3) by simp
    have b: "unat (cmdr_count ?s1) + length (filter cmdr_xfer ds) \<le> unat (n - 1)"
      using Cons.prems(4) False s1(2) by simp
    from Cons.IH[OF s1(1) _ a b] Cons.prems(2) s1 t1 False show ?thesis
      by (simp add: cmdr_items_Cons)
  next
    case True
    have lt: "unat (cmdr_count s) < unat (n - 1)"
      using Cons.prems(4) True by simp
    then have nl: "cmdr_count s \<noteq> n - 1"
      by auto
    have c1: "unat (cmdr_count s + 1) = unat (cmdr_count s) + 1"
      using lt u8_le_255[of "n - 1"] by (intro u8_suc) simp
    have s1: "cmdr_state ?s1 = CMDR_CMD" "cmdr_count ?s1 = cmdr_count s + 1"
      "cmdr_timeout ?s1 = cmdr_timeout s - 1"
      "fst (cmdr_emit t s d) = [ok_item False (cmdr_rdata d)]"
      using Cons.prems(1) ne True nl req
      by (auto simp add: cmdr_emit_def cmdr_fsm_cycle_def SDPHYCMDR_fsm_def Let_def
          cmdr_xfer_def ok_item_def)
    have t1: "unat (cmdr_timeout ?s1) = unat (cmdr_timeout s) - 1"
      using s1(3) u32_dec[OF ne] by simp
    have a: "length ds \<le> unat (cmdr_timeout ?s1)"
      using t1 Cons.prems(3) by simp
    have b: "unat (cmdr_count ?s1) + length (filter cmdr_xfer ds) \<le> unat (n - 1)"
      using Cons.prems(4) True s1(2) c1 by simp
    from Cons.IH[OF s1(1) _ a b] Cons.prems(2) s1 t1 True c1 show ?thesis
      by (simp add: cmdr_items_Cons)
  qed
qed

lemma cmdr_last_step:
  assumes st: "cmdr_state s = CMDR_CMD"
    and req: "cmdr_request n l x" and x: "cmdr_xfer x"
    and c: "unat (cmdr_count s) = unat (n - 1)" and tmo: "0 < unat (cmdr_timeout s)"
  shows "fst (cmdr_emit t s x) = [ok_item True (cmdr_rdata x)]"
    and "cmdr_state (snd (cmdr_emit t s x)) = (if l then CMDR_CLK8 else CMDR_IDLE)"
    and "l \<Longrightarrow> cmdr_count (snd (cmdr_emit t s x)) = 0"
    and "cmdr_sink_ready (fst (cmdr_fsm_cycle t s x))"
proof -
  have ne: "cmdr_timeout s \<noteq> 0" using tmo by (rule u32_pos)
  have la: "cmdr_count s = n - 1"
    using c by (simp only: word_unat_eq_iff)
  have r: "cmdr_sink_length (fst x) = n" "cmdr_sink_last (fst x) = l"
    using req by (simp_all add: cmdr_request_def)
  show "fst (cmdr_emit t s x) = [ok_item True (cmdr_rdata x)]"
    using st ne la r x
    by (auto simp add: cmdr_emit_def cmdr_fsm_cycle_def SDPHYCMDR_fsm_def Let_def
        cmdr_xfer_def ok_item_def)
  show "cmdr_state (snd (cmdr_emit t s x)) = (if l then CMDR_CLK8 else CMDR_IDLE)"
    using st ne la r x
    by (auto simp add: cmdr_emit_def cmdr_fsm_cycle_def SDPHYCMDR_fsm_def Let_def
        cmdr_xfer_def)
  show "l \<Longrightarrow> cmdr_count (snd (cmdr_emit t s x)) = 0"
    using st ne la r x
    by (auto simp add: cmdr_emit_def cmdr_fsm_cycle_def SDPHYCMDR_fsm_def Let_def
        cmdr_xfer_def)
  show "cmdr_sink_ready (fst (cmdr_fsm_cycle t s x))"
    using st ne la r x
    by (auto simp add: cmdr_fsm_cycle_def SDPHYCMDR_fsm_def Let_def cmdr_xfer_def)
qed

lemma cmdr_block:
  assumes idle: "cmdr_state s = CMDR_IDLE"
    and req: "\<forall>x \<in> set (i0 # ws @ [w1] @ pre @ [fin]). cmdr_request n l x"
    and dn: "cmdr_cmdw_done (fst i0)"
    and ws: "\<forall>x \<in> set ws. \<not> cmdr_rvalid x"
    and w1: "cmdr_rvalid w1"
    and pre: "length (filter cmdr_xfer pre) = unat (n - 1)"
    and fin: "cmdr_xfer fin"
    and tmo: "length (ws @ [w1] @ pre @ [fin]) \<le> unat treset"
  shows "cmdr_items treset s (i0 # ws @ [w1] @ pre @ [fin]) =
           map (\<lambda>x. ok_item False (cmdr_rdata x)) (filter cmdr_xfer pre) @
             [ok_item True (cmdr_rdata fin)] \<and>
         cmdr_state (run_state (cmdr_emit treset) s (i0 # ws @ [w1] @ pre @ [fin])) =
           (if l then CMDR_CLK8 else CMDR_IDLE)"
proof -
  let ?E = "cmdr_emit treset"
  let ?ins = "i0 # ws @ [w1] @ pre @ [fin]"
  define s1 where "s1 = snd (?E s i0)"
  define s2 where "s2 = run_state ?E s1 ws"
  define s3 where "s3 = snd (?E s2 w1)"
  define s4 where "s4 = run_state ?E s3 pre"
  define s5 where "s5 = snd (?E s4 fin)"
  have r0: "cmdr_sink_valid (fst i0)"
    using req by (simp add: cmdr_request_def)
  have a1: "cmdr_state s1 = CMDR_WAIT" "cmdr_timeout s1 = treset" "cmdr_count s1 = 0"
    and i1: "fst (?E s i0) = []"
    using cmdr_idle_step[OF idle r0 dn, of treset] by (simp_all add: s1_def)
  have l2: "length ws \<le> unat (cmdr_timeout s1)"
    using tmo a1(2) by simp
  have a2: "cmdr_state s2 = CMDR_WAIT" "cmdr_count s2 = 0"
    "unat (cmdr_timeout s2) = unat treset - length ws"
    and i2: "cmdr_items treset s1 ws = []"
    using cmdr_wait_run[OF a1(1) ws l2, of treset] a1 by (simp_all add: s2_def)
  have p3: "0 < unat (cmdr_timeout s2)"
    using a2(3) tmo by simp
  have a3: "cmdr_state s3 = CMDR_CMD" "cmdr_count s3 = 0"
    "unat (cmdr_timeout s3) = unat treset - length ws - 1"
    and i3: "fst (?E s2 w1) = []"
    using cmdr_wait_step[OF a2(1) w1 p3, of treset] a2 by (simp_all add: s3_def)
  have r4: "\<forall>x \<in> set pre. cmdr_request n l x"
    using req by simp
  have l4: "length pre \<le> unat (cmdr_timeout s3)"
    using a3(3) tmo by simp
  have c4: "unat (cmdr_count s3) + length (filter cmdr_xfer pre) \<le> unat (n - 1)"
    using a3(2) pre by simp
  have a4: "cmdr_state s4 = CMDR_CMD" "unat (cmdr_count s4) = unat (n - 1)"
    "unat (cmdr_timeout s4) = unat treset - length ws - 1 - length pre"
    and i4: "cmdr_items treset s3 pre =
       map (\<lambda>x. ok_item False (cmdr_rdata x)) (filter cmdr_xfer pre)"
    using cmdr_cmd_run[OF a3(1) r4 l4 c4, of treset] a3 pre by (simp_all add: s4_def)
  have r5: "cmdr_request n l fin"
    using req by simp
  have p5: "0 < unat (cmdr_timeout s4)"
    using a4(3) tmo by simp
  note fs = cmdr_last_step[OF a4(1) r5 fin a4(2) p5, of treset]
  have a5: "cmdr_state s5 = (if l then CMDR_CLK8 else CMDR_IDLE)"
    and i5: "fst (?E s4 fin) = [ok_item True (cmdr_rdata fin)]"
    using fs by (simp_all add: s5_def)
  have st: "run_state ?E s ?ins = s5"
    by (simp add: run_state_append s1_def s2_def s3_def s4_def s5_def)
  have it: "cmdr_items treset s ?ins =
      map (\<lambda>x. ok_item False (cmdr_rdata x)) (filter cmdr_xfer pre) @
        [ok_item True (cmdr_rdata fin)]"
    using i1 i2 i3 i4 i5
    by (simp add: cmdr_items_Cons cmdr_items_append cmdr_items_Nil
        s1_def[symmetric] s2_def[symmetric] s3_def[symmetric] s4_def[symmetric])
  have a5': "cmdr_state (run_state ?E s ?ins) = (if l then CMDR_CLK8 else CMDR_IDLE)"
    unfolding st by (rule a5)
  from it a5' show ?thesis
    by (intro conjI) assumption+
qed


text \<open>
  C10: a command-read request with requested length 0, taken in IDLE while the writer is
  idle and held until it is consumed.  The 8-bit comparison \<open>count == length - 1\<close> is
  \<open>count == 255\<close>: if the reader delivers bytes and the timeout counter does not run
  out, the request is not completed with zero bytes; the first 255 bytes handed over
  are items with status \<open>OK\<close> and \<open>last\<close> low, and \<open>last\<close> is set on the 256th.
\<close>

theorem cmdr_length_zero:
  assumes idle: "cmdr_state s = CMDR_IDLE"
    and req: "\<forall>x \<in> set (i0 # ws @ [w1] @ pre @ [fin]). cmdr_request 0 l x"
    and dn: "cmdr_cmdw_done (fst i0)"
    and ws: "\<forall>x \<in> set ws. \<not> cmdr_rvalid x"
    and w1: "cmdr_rvalid w1"
    and pre: "length (filter cmdr_xfer pre) = 255"
    and fin: "cmdr_xfer fin"
    and tmo: "length (ws @ [w1] @ pre @ [fin]) \<le> unat treset"
  shows "cmdr_items treset s (i0 # ws @ [w1] @ pre @ [fin]) =
           map (\<lambda>x. ok_item False (cmdr_rdata x)) (filter cmdr_xfer pre) @
             [ok_item True (cmdr_rdata fin)] \<and>
         length (cmdr_items treset s (i0 # ws @ [w1] @ pre @ [fin])) = 256 \<and>
         cmdr_state (run_state (cmdr_emit treset) s (i0 # ws @ [w1] @ pre @ [fin])) =
           (if l then CMDR_CLK8 else CMDR_IDLE)"
proof -
  have "(0 - 1 :: u8) = 255" by simp
  then have u: "unat (0 - 1 :: u8) = 255" by (simp only: unat_numeral) simp
  have pre': "length (filter cmdr_xfer pre) = unat (0 - 1 :: u8)"
    using pre u by (simp only:)
  note B = cmdr_block[OF idle req dn ws w1 pre' fin tmo]
  have len: "length (cmdr_items treset s (i0 # ws @ [w1] @ pre @ [fin])) = 256"
    unfolding B[THEN conjunct1] using pre by simp
  from B[THEN conjunct1] len B[THEN conjunct2] show ?thesis
    by (intro conjI) assumption+
qed

theorem cmdr_length_zero_witness:
  "cmdr_items 250000 (cmdr_regs_reset 250000)
     (cmdr_example_cycle 0 # [] @ [cmdr_example_cycle 0] @
        replicate 255 (cmdr_example_cycle 0) @ [cmdr_example_cycle 0]) =
     map (\<lambda>x. ok_item False (cmdr_rdata x))
       (filter cmdr_xfer (replicate 255 (cmdr_example_cycle 0))) @
     [ok_item True 0x3F] \<and>
   length (cmdr_items 250000 (cmdr_regs_reset 250000)
     (cmdr_example_cycle 0 # [] @ [cmdr_example_cycle 0] @
        replicate 255 (cmdr_example_cycle 0) @ [cmdr_example_cycle 0])) = 256"
proof -
  let ?x = "cmdr_example_cycle 0"
  have x: "cmdr_xfer ?x" "cmdr_rvalid ?x" "cmdr_request 0 False ?x" "cmdr_rdata ?x = 0x3F"
    "cmdr_cmdw_done (fst ?x)"
    by (simp_all add: cmdr_example_cycle_def cmdr_xfer_def cmdr_rvalid_def
        cmdr_request_def cmdr_rdata_def)
  have h1: "cmdr_state (cmdr_regs_reset 250000) = CMDR_IDLE"
    by (simp add: cmdr_regs_reset_def)
  have h2: "\<forall>y \<in> set (?x # [] @ [?x] @ replicate 255 ?x @ [?x]). cmdr_request 0 False y"
    using x(3) by simp
  have h4: "\<forall>y \<in> set []. \<not> cmdr_rvalid y" by simp
  have h6: "length (filter cmdr_xfer (replicate 255 ?x)) = 255"
    using x(1) by simp
  have h8: "length ([] @ [?x] @ replicate 255 ?x @ [?x]) \<le> unat (250000::u32)" by simp
  note T = cmdr_length_zero[OF h1 h2 x(5) h4 x(2) h6 x(1) h8]
  have a: "cmdr_items 250000 (cmdr_regs_reset 250000)
     (?x # [] @ [?x] @ replicate 255 ?x @ [?x]) =
     map (\<lambda>x. ok_item False (cmdr_rdata x)) (filter cmdr_xfer (replicate 255 ?x)) @
     [ok_item True 0x3F]"
    by (rule T[THEN conjunct1, unfolded x(4)])
  from a T[THEN conjunct2, THEN conjunct1] show ?thesis
    by (intro conjI) assumption+
qed

section \<open>No response: the command reader times out\<close>

lemma cmdr_line_items_append:
  "cmdr_line_items t s (xs @ ys) =
     cmdr_line_items t s xs @ cmdr_line_items t (run_state (cmdr_line_cycle t) s xs) ys"
  by (simp add: cmdr_line_items_def run_outs_append)

lemma cmdr_line_items_Cons:
  "cmdr_line_items t s (x # xs) =
     fst (cmdr_line_cycle t s x) @ cmdr_line_items t (snd (cmdr_line_cycle t s x)) xs"
  by (simp add: cmdr_line_items_def)

lemma cmdr_line_items_Nil: "cmdr_line_items t s [] = []"
  by (simp add: cmdr_line_items_def)

lemma sdphyr_quiet:
  "SDPHYR cmdr_cfg sdphyr_reset False True d rdy = sdphyr_reset"
  by (simp add: SDPHYR_def cmdr_cfg_def sdphyr_reset_def start_def pads_in_data_def
      converter_step_def converter_sink_ready_def buffer_step_def buffer_sink_ready_def
      Let_def)

lemma sdphyr_do_reset: "SDPHYR cfg r True c d rdy = sdphyr_reset"
  by (simp add: SDPHYR_def Let_def)

lemma sdphyr_reset_invalid: "\<not> sdphyr_source_valid sdphyr_reset"
  by (simp add: sdphyr_source_valid_def sdphyr_reset_def)

lemma cmdr_waiting_step:
  assumes w: "cmdr_waiting sr" and hi: "cmdr_cmd_i x"
  shows "fst (cmdr_line_cycle t sr x) = []"
    and "cmdr_timeout (fst sr) = 0 \<Longrightarrow> cmdr_state (fst (snd (cmdr_line_cycle t sr x))) = CMDR_TIMEOUT"
    and "cmdr_timeout (fst sr) \<noteq> 0 \<Longrightarrow> cmdr_waiting (snd (cmdr_line_cycle t sr x))"
    and "cmdr_timeout (fst (snd (cmdr_line_cycle t sr x))) = cmdr_timeout (fst sr) - 1"
proof -
  obtain s r where sr: "sr = (s, r)" by (cases sr)
  consider (a) "cmdr_state s = CMDR_WAIT" "cmdr_reset s"
    | (b) "cmdr_state s = CMDR_WAIT" "\<not> cmdr_reset s" "r = sdphyr_reset"
    | (c) "cmdr_state s = CMDR_CMD" "\<not> cmdr_reset s" "r = sdphyr_reset"
    using w unfolding cmdr_waiting_def sr by (auto split: if_splits)
  then have "fst (cmdr_line_cycle t sr x) = [] \<and>
     (cmdr_timeout (fst sr) = 0 \<longrightarrow> cmdr_state (fst (snd (cmdr_line_cycle t sr x))) = CMDR_TIMEOUT) \<and>
     (cmdr_timeout (fst sr) \<noteq> 0 \<longrightarrow> cmdr_waiting (snd (cmdr_line_cycle t sr x))) \<and>
     cmdr_timeout (fst (snd (cmdr_line_cycle t sr x))) = cmdr_timeout (fst sr) - 1"
  proof cases
    case a
    then show ?thesis
      unfolding sr
      by (simp add: cmdr_line_cycle_def SDPHYCMDR_def SDPHYCMDR_fsm_def Let_def
          source_none_def sdphyr_do_reset cmdr_waiting_def)
  next
    case b
    then show ?thesis
      unfolding sr using hi
      by (simp add: cmdr_line_cycle_def SDPHYCMDR_def SDPHYCMDR_fsm_def Let_def
          source_none_def sdphyr_quiet sdphyr_reset_invalid cmdr_waiting_def)
  next
    case c
    then show ?thesis
      unfolding sr using hi
      by (simp add: cmdr_line_cycle_def SDPHYCMDR_def SDPHYCMDR_fsm_def Let_def
          source_none_def sdphyr_quiet sdphyr_reset_invalid cmdr_waiting_def)
  qed
  then show "fst (cmdr_line_cycle t sr x) = []"
    and "cmdr_timeout (fst sr) = 0 \<Longrightarrow> cmdr_state (fst (snd (cmdr_line_cycle t sr x))) = CMDR_TIMEOUT"
    and "cmdr_timeout (fst sr) \<noteq> 0 \<Longrightarrow> cmdr_waiting (snd (cmdr_line_cycle t sr x))"
    and "cmdr_timeout (fst (snd (cmdr_line_cycle t sr x))) = cmdr_timeout (fst sr) - 1"
    by blast+
qed

lemma cmdr_waiting_run:
  "cmdr_waiting sr \<Longrightarrow> \<forall>x \<in> set ws. cmdr_cmd_i x \<Longrightarrow>
   length ws = unat (cmdr_timeout (fst sr)) + 1 \<Longrightarrow>
   cmdr_state (fst (run_state (cmdr_line_cycle t) sr ws)) = CMDR_TIMEOUT \<and>
   cmdr_line_items t sr ws = []"
proof (induction ws arbitrary: sr)
  case Nil
  then show ?case by simp
next
  case (Cons w ws)
  have hi: "cmdr_cmd_i w" using Cons.prems(2) by simp
  note st = cmdr_waiting_step[OF Cons.prems(1) hi, of t]
  show ?case
  proof (cases "cmdr_timeout (fst sr) = 0")
    case True
    then have "ws = []" using Cons.prems(3) by simp
    then show ?thesis
      using st(1) st(2)[OF True] by (simp add: cmdr_line_items_Cons cmdr_line_items_Nil)
  next
    case False
    have t1: "unat (cmdr_timeout (fst (snd (cmdr_line_cycle t sr w)))) =
        unat (cmdr_timeout (fst sr)) - 1"
      using st(4) u32_dec[OF False] by simp
    have p: "0 < unat (cmdr_timeout (fst sr))"
      using False by (simp add: unat_gt_0)
    have len: "length ws = unat (cmdr_timeout (fst (snd (cmdr_line_cycle t sr w)))) + 1"
      using Cons.prems(3) t1 p by simp
    from Cons.IH[OF st(3)[OF False] _ len] Cons.prems(2) st(1) show ?thesis
      by (simp add: cmdr_line_items_Cons)
  qed
qed

lemma cmdr_timeout_hold:
  "cmdr_state (fst sr) = CMDR_TIMEOUT \<Longrightarrow> \<forall>x \<in> set ts. \<not> cmdr_source_ready (fst x) \<Longrightarrow>
   cmdr_state (fst (run_state (cmdr_line_cycle t) sr ts)) = CMDR_TIMEOUT \<and>
   cmdr_line_items t sr ts = []"
proof (induction ts arbitrary: sr)
  case Nil
  then show ?case by (simp add: cmdr_line_items_Nil)
next
  case (Cons x ts)
  obtain s r where sr: "sr = (s, r)" by (cases sr)
  have st: "cmdr_state (fst (snd (cmdr_line_cycle t sr x))) = CMDR_TIMEOUT"
    "fst (cmdr_line_cycle t sr x) = []"
    using Cons.prems unfolding sr
    by (simp_all add: cmdr_line_cycle_def SDPHYCMDR_def SDPHYCMDR_fsm_def Let_def)
  from Cons.IH[OF st(1)] Cons.prems(2) st(2) show ?case
    by (simp add: cmdr_line_items_Cons)
qed

lemma cmdr_timeout_accept:
  "cmdr_state (fst sr) = CMDR_TIMEOUT \<Longrightarrow> cmdr_source_ready (fst x) \<Longrightarrow>
   cmdr_state (fst (snd (cmdr_line_cycle t sr x))) = CMDR_IDLE \<and>
   fst (cmdr_line_cycle t sr x) = [timeout_item]"
proof -
  assume a: "cmdr_state (fst sr) = CMDR_TIMEOUT" "cmdr_source_ready (fst x)"
  obtain s r where sr: "sr = (s, r)" by (cases sr)
  show ?thesis
    using a unfolding sr
    by (simp add: cmdr_line_cycle_def SDPHYCMDR_def SDPHYCMDR_fsm_def Let_def timeout_item_def)
qed

lemma cmdr_line_idle_step:
  "cmdr_state (fst sr) = CMDR_IDLE \<Longrightarrow> cmdr_sink_valid (fst x) \<Longrightarrow> cmdr_cmdw_done (fst x) \<Longrightarrow>
   cmdr_waiting (snd (cmdr_line_cycle t sr x)) \<and>
   cmdr_timeout (fst (snd (cmdr_line_cycle t sr x))) = t \<and>
   fst (cmdr_line_cycle t sr x) = []"
proof -
  assume a: "cmdr_state (fst sr) = CMDR_IDLE" "cmdr_sink_valid (fst x)" "cmdr_cmdw_done (fst x)"
  obtain s r where sr: "sr = (s, r)" by (cases sr)
  show ?thesis
    using a unfolding sr
    by (simp add: cmdr_line_cycle_def SDPHYCMDR_def SDPHYCMDR_fsm_def Let_def
        cmdr_waiting_def source_none_def)
qed


text \<open>
  C3: the command reader is idle, a request is pending and the writer is idle
  (cycle \<open>i0\<close>); the reader and the timeout register may hold anything.  The request is
  accepted, the timeout counter is reloaded with \<open>treset\<close>, and the command line stays
  high, so that no start condition is seen, for the \<open>treset + 1\<close> cycles \<open>ws\<close> that the
  counter needs to reach zero.  The result stream is not ready during the cycles \<open>ts\<close>
  and ready in cycle \<open>fin\<close>.  Then the result stream receives exactly one item, with
  status \<open>TIMEOUT\<close> and \<open>last\<close> high, and no data byte; the machine is idle again.
\<close>

theorem cmdr_no_response_timeout:
  assumes idle: "cmdr_state (fst sr) = CMDR_IDLE"
    and req: "cmdr_sink_valid (fst i0)"
    and dn: "cmdr_cmdw_done (fst i0)"
    and high: "\<forall>x \<in> set ws. cmdr_cmd_i x"
    and len: "length ws = unat treset + 1"
    and hold: "\<forall>x \<in> set ts. \<not> cmdr_source_ready (fst x)"
    and acc: "cmdr_source_ready (fst fin)"
  shows "cmdr_line_items treset sr (i0 # ws @ ts @ [fin]) = [timeout_item] \<and>
         cmdr_state (fst (run_state (cmdr_line_cycle treset) sr (i0 # ws @ ts @ [fin]))) =
           CMDR_IDLE"
proof -
  let ?C = "cmdr_line_cycle treset"
  define s1 where "s1 = snd (?C sr i0)"
  define s2 where "s2 = run_state ?C s1 ws"
  define s3 where "s3 = run_state ?C s2 ts"
  have a1: "cmdr_waiting s1" "cmdr_timeout (fst s1) = treset"
    and i1: "fst (?C sr i0) = []"
    using cmdr_line_idle_step[OF idle req dn, of treset] by (simp_all add: s1_def)
  have l2: "length ws = unat (cmdr_timeout (fst s1)) + 1"
    using len a1(2) by simp
  have a2: "cmdr_state (fst s2) = CMDR_TIMEOUT"
    and i2: "cmdr_line_items treset s1 ws = []"
    using cmdr_waiting_run[OF a1(1) high l2, of treset] by (simp_all add: s2_def)
  have a3: "cmdr_state (fst s3) = CMDR_TIMEOUT"
    and i3: "cmdr_line_items treset s2 ts = []"
    using cmdr_timeout_hold[OF a2 hold, of treset] by (simp_all add: s3_def)
  have a4: "cmdr_state (fst (snd (?C s3 fin))) = CMDR_IDLE"
    and i4: "fst (?C s3 fin) = [timeout_item]"
    using cmdr_timeout_accept[OF a3 acc, of treset] by simp_all
  have st: "run_state ?C sr (i0 # ws @ ts @ [fin]) = snd (?C s3 fin)"
    by (simp add: run_state_append s1_def s2_def s3_def)
  have it: "cmdr_line_items treset sr (i0 # ws @ ts @ [fin]) = [timeout_item]"
    using i1 i2 i3 i4
    by (simp add: cmdr_line_items_Cons cmdr_line_items_append cmdr_line_items_Nil
        s1_def[symmetric] s2_def[symmetric] s3_def[symmetric])
  have fin: "cmdr_state (fst (run_state ?C sr (i0 # ws @ ts @ [fin]))) = CMDR_IDLE"
    unfolding st by (rule a4)
  from it fin show ?thesis
    by (intro conjI) assumption+
qed

theorem cmdr_no_response_timeout_witness:
  "cmdr_line_items 250000 (cmdr_regs_reset 250000, sdphyr_reset)
     (cmdr_idle_line # replicate 250001 cmdr_idle_line @ [] @ [cmdr_idle_line]) =
     [timeout_item] \<and>
   cmdr_state (fst (run_state (cmdr_line_cycle 250000) (cmdr_regs_reset 250000, sdphyr_reset)
     (cmdr_idle_line # replicate 250001 cmdr_idle_line @ [] @ [cmdr_idle_line]))) = CMDR_IDLE"
proof -
  have h1: "cmdr_state (fst (cmdr_regs_reset 250000, sdphyr_reset)) = CMDR_IDLE"
    by (simp add: cmdr_regs_reset_def)
  have h2: "cmdr_sink_valid (fst cmdr_idle_line)" "cmdr_cmdw_done (fst cmdr_idle_line)"
    "cmdr_source_ready (fst cmdr_idle_line)" "cmdr_cmd_i cmdr_idle_line"
    by (simp_all add: cmdr_idle_line_def cmdr_cmd_i_def)
  have h3: "\<forall>x \<in> set (replicate 250001 cmdr_idle_line). cmdr_cmd_i x"
    using h2(4) by simp
  have h4: "length (replicate 250001 cmdr_idle_line) = unat (250000::u32) + 1"
    by simp
  have h5: "\<forall>x \<in> set []. \<not> cmdr_source_ready (fst x)"
    by simp
  show ?thesis
    by (rule cmdr_no_response_timeout[OF h1 h2(1) h2(2) h3 h4 h5 h2(3)])
qed

section \<open>The bit stream reader\<close>

lemma run_state_foldl: "run_state f s ins = foldl (\<lambda>s x. snd (f s x)) s ins"
  by (induction ins arbitrary: s) simp_all

lemma since_start_snoc:
  "since_start cfg (ins @ [x]) = since_start_step cfg (since_start cfg ins) x"
  by (simp add: since_start_def)

lemma sdphyr_inv_step:
  assumes w: "data_width cfg = 1 \<or> data_width cfg = 4"
    and inv: "sdphyr_inv cfg r g"
  shows "sdphyr_inv cfg (snd (sdphyr_cycle cfg r x)) (since_start_step cfg g x)"
proof (cases "rd_reset x")
  case True
  then show ?thesis
    by (simp add: sdphyr_cycle_def SDPHYR_def Let_def since_start_step_def sdphyr_inv_def
        sdphyr_reset_def)
next
  case False
  show ?thesis
  proof (cases g)
    case None
    then show ?thesis
      using inv False w
      by (auto simp add: sdphyr_cycle_def SDPHYR_def Let_def since_start_step_def
          sdphyr_inv_def sdphyr_start_def converter_step_def converter_sink_ready_def
          buffer_step_def buffer_sink_ready_def)
  next
    case (Some d)
    then show ?thesis
      using inv False w
      by (auto simp add: sdphyr_cycle_def SDPHYR_def Let_def since_start_step_def
          sdphyr_inv_def sdphyr_start_def converter_step_def converter_sink_ready_def
          buffer_step_def buffer_sink_ready_def split: if_splits)
  qed
qed

lemma sdphyr_inv_run:
  assumes w: "data_width cfg = 1 \<or> data_width cfg = 4"
  shows "sdphyr_inv cfg (run_state (sdphyr_cycle cfg) sdphyr_reset ins) (since_start cfg ins)"
proof (induction ins rule: rev_induct)
  case Nil
  show ?case
    by (simp add: since_start_def sdphyr_inv_def sdphyr_reset_def)
next
  case (snoc x xs)
  show ?case
    using sdphyr_inv_step[OF w snoc.IH, of x]
    by (simp add: run_state_append since_start_snoc)
qed

lemma since_start_sound:
  "since_start cfg ins = Some d \<Longrightarrow>
   0 < d \<and> d \<le> length ins \<and> sdphyr_start cfg (ins ! (length ins - d))"
proof (induction ins arbitrary: d rule: rev_induct)
  case Nil
  then show ?case by (simp add: since_start_def)
next
  case (snoc x xs)
  show ?case
  proof (cases "since_start cfg xs")
    case None
    then have "d = 1" "sdphyr_start cfg x"
      using snoc.prems
      by (auto simp add: since_start_snoc since_start_step_def split: if_splits)
    then show ?thesis by simp
  next
    case (Some e)
    then have d: "d = e + 1"
      using snoc.prems
      by (auto simp add: since_start_snoc since_start_step_def split: if_splits)
    have e: "0 < e" "e \<le> length xs" "sdphyr_start cfg (xs ! (length xs - e))"
      using snoc.IH[OF Some] by simp_all
    have "(xs @ [x]) ! (length (xs @ [x]) - d) = xs ! (length xs - e)"
      using d e by (simp add: nth_append)
    then show ?thesis using d e by simp
  qed
qed


text \<open>
  C7 as the spec states it, at width 4: the data lines show the start condition in
  cycle 0 and the nibbles \<open>0xA\<close> and \<open>0x5\<close> in cycles 1 and 2.  In cycle 4 the reader
  offers the byte \<open>0xA5\<close>: 4 cycles after the start condition, not \<open>4 * 8\<close>.
\<close>

theorem sdphyr_width4_counterexample:
  "sdphyr_source_valid (run_state (sdphyr_cycle datar_cfg) sdphyr_reset
     [nibble_cycle 0, nibble_cycle 0xA, nibble_cycle 0x5, nibble_cycle 0xF]) \<and>
   sdphyr_source_data (run_state (sdphyr_cycle datar_cfg) sdphyr_reset
     [nibble_cycle 0, nibble_cycle 0xA, nibble_cycle 0x5, nibble_cycle 0xF]) = 0xA5 \<and>
   sdphyr_start datar_cfg (nibble_cycle 0) \<and>
   length [nibble_cycle 0, nibble_cycle 0xA, nibble_cycle 0x5, nibble_cycle 0xF] <
     data_width datar_cfg * 8"
  by (simp add: sdphyr_cycle_def SDPHYR_def Let_def sdphyr_reset_def datar_cfg_def
      nibble_cycle_def sdphyr_start_def start_def pads_in_data_def converter_step_def
      converter_sink_ready_def buffer_step_def buffer_sink_ready_def set_slice_def
      sdphyr_source_valid_def sdphyr_source_data_def mask_eq_exp_minus_1)

text \<open>
  C7, amended: for the line widths 1 and 4, from its reset state and for every input
  (resets included), the reader offers a byte only if a start condition was sampled
  at least \<open>8 div width + 1\<close> cycles earlier (the \<open>8 div width\<close> samples of the byte and
  the buffer stage); \<open>run\<close> is set only after a start condition; and the start
  condition of a cycle is that the sampled \<open>width\<close> line bits are all zero.
\<close>

theorem sdphyr_first_byte:
  assumes w: "data_width cfg = 1 \<or> data_width cfg = 4"
  shows "(sdphyr_source_valid (run_state (sdphyr_cycle cfg) sdphyr_reset ins) \<longrightarrow>
            (\<exists>s. s + 8 div data_width cfg + 1 \<le> length ins \<and> sdphyr_start cfg (ins ! s))) \<and>
         (run (run_state (sdphyr_cycle cfg) sdphyr_reset ins) \<longrightarrow>
            (\<exists>s. s < length ins \<and> sdphyr_start cfg (ins ! s))) \<and>
         sdphyr_start cfg x = (pads_in_data cfg (rd_cmd_i x) (rd_data_i x) = 0)"
proof (intro conjI impI)
  let ?r = "run_state (sdphyr_cycle cfg) sdphyr_reset ins"
  note inv = sdphyr_inv_run[OF w, of ins]
  {
    assume v: "sdphyr_source_valid ?r"
    then obtain d where g: "since_start cfg ins = Some d"
      using inv by (cases "since_start cfg ins")
        (auto simp add: sdphyr_inv_def sdphyr_source_valid_def)
    have d: "8 div data_width cfg + 1 \<le> d"
      using inv v g by (simp add: sdphyr_inv_def sdphyr_source_valid_def)
    note s = since_start_sound[OF g]
    have dl: "d \<le> length ins"
      using s by simp
    have "length ins - d + 8 div data_width cfg + 1 \<le> length ins"
      using d dl by arith
    then show "\<exists>s. s + 8 div data_width cfg + 1 \<le> length ins \<and> sdphyr_start cfg (ins ! s)"
      using s by blast
  }
  {
    assume v: "run ?r"
    then obtain d where g: "since_start cfg ins = Some d"
      using inv by (cases "since_start cfg ins") (auto simp add: sdphyr_inv_def)
    note s = since_start_sound[OF g]
    have "0 < d" "d \<le> length ins"
      using s by simp_all
    then have "length ins - d < length ins"
      by arith
    then show "\<exists>s. s < length ins \<and> sdphyr_start cfg (ins ! s)"
      using s by blast
  }
  show "sdphyr_start cfg x = (pads_in_data cfg (rd_cmd_i x) (rd_data_i x) = 0)"
    by (simp add: sdphyr_start_def start_def)
qed

theorem sdphyr_first_byte_witness:
  "sdphyr_source_valid (run_state (sdphyr_cycle datar_cfg) sdphyr_reset
     [nibble_cycle 0, nibble_cycle 0xA, nibble_cycle 0x5, nibble_cycle 0xF]) \<and>
   (\<exists>s. s + 8 div data_width datar_cfg + 1 \<le>
        length [nibble_cycle 0, nibble_cycle 0xA, nibble_cycle 0x5, nibble_cycle 0xF] \<and>
      sdphyr_start datar_cfg
        ([nibble_cycle 0, nibble_cycle 0xA, nibble_cycle 0x5, nibble_cycle 0xF] ! s))"
proof -
  have w: "data_width datar_cfg = 1 \<or> data_width datar_cfg = 4"
    by (simp add: datar_cfg_def)
  have v: "sdphyr_source_valid (run_state (sdphyr_cycle datar_cfg) sdphyr_reset
     [nibble_cycle 0, nibble_cycle 0xA, nibble_cycle 0x5, nibble_cycle 0xF])"
    by (simp add: sdphyr_cycle_def SDPHYR_def Let_def sdphyr_reset_def datar_cfg_def
      nibble_cycle_def start_def pads_in_data_def converter_step_def
      converter_sink_ready_def buffer_step_def buffer_sink_ready_def set_slice_def
      sdphyr_source_valid_def)
  from sdphyr_first_byte[OF w, THEN conjunct1, THEN mp, OF v] v show ?thesis
    by (intro conjI) assumption+
qed

section \<open>The CRC status on the data line\<close>

text \<open>
  C6 at the input of a card that answers a written block with the CRC status \<open>0b101\<close>
  (bad CRC) on data line 0: start bit, status bits 1, 0, 1, end bit, then busy.  The
  decoder's reader packs the eight line bits after the start bit into one byte, here
  \<open>0xB0\<close>, and the decoder compares the whole byte with \<open>0b101\<close>: in the cycle of its
  decision it asserts \<open>valid\<close>, not \<open>error\<close>.  The status \<open>0b010\<close> (block accepted) gives
  the same outputs.
\<close>

theorem crcr_status_101_valid:
  "run_outs crcr_line_cycle (crcr_regs_reset, sdphyr_reset) (crc_status_trace True False True) =
     replicate 13 (False, False) @ [(True, False)] \<and>
   run_outs crcr_line_cycle (crcr_regs_reset, sdphyr_reset) (crc_status_trace False True False) =
     replicate 13 (False, False) @ [(True, False)]"
  by code_simp

section \<open>A block of 1017 bytes\<close>

text \<open>
  C2 at the input of a request for a block of 1017 bytes, marked \<open>last\<close>, from reset,
  with the result stream ready and the card answering on the data lines with the start
  condition and the bytes \<open>0xA5\<close>, \<open>0x3C\<close>, \<open>0x96\<close>.  The data reader with its embedded
  reader hands over one item, the byte \<open>0xA5\<close> with \<open>last\<close> set, and goes to CLK40: the
  10-bit comparison \<open>count == block_length + 8 - 1\<close> is \<open>count == 0\<close>.  The request
  yields 1 byte, not 1017 + 8.
\<close>

theorem datar_block_1017:
  "datar_line_items 250000 (datar_regs_reset 250000, sdphyr_reset) (datar_block_trace 1017) =
     [ok_item True 0xA5] \<and>
   datar_state (fst (run_state (datar_line_cycle 250000) (datar_regs_reset 250000, sdphyr_reset)
     (datar_block_trace 1017))) = DATAR_CLK40"
  by code_simp

section \<open>The drivers of the shared lines\<close>

text \<open>
  C9 as the spec states it, exactly one driver at every instant: in the first cycle
  after reset, with nothing pending, none of the four state machines asserts an
  output-enable.
\<close>

theorem sdphy_no_driver_counterexample:
  "oe_drivers (fst (SDPHY 250000 250000 (sdphy_reset 250000 250000) sdphy_idle_in)) = 0"
  by code_simp

lemma cmdw_oe: "cmd_oe (cmdw_pads (fst (SDPHYCMDW s k))) = (cmdw_state s \<noteq> CMDW_IDLE)"
  by (cases "cmdw_state s") (simp_all add: SDPHYCMDW_def pads_none_def)

lemma cmdw_data_oe: "data_oe (cmdw_pads (fst (SDPHYCMDW s k))) = False"
  by (cases "cmdw_state s") (simp_all add: SDPHYCMDW_def pads_none_def)

lemma cmdr_oe:
  "cmd_oe (cmdr_pads (fst (SDPHYCMDR t sr i c d))) = (cmdr_state (fst sr) = CMDR_CLK8)"
  by (cases sr; cases "cmdr_state (fst sr)")
     (simp_all add: SDPHYCMDR_def SDPHYCMDR_fsm_def pads_none_def Let_def)

lemma cmdr_data_oe: "data_oe (cmdr_pads (fst (SDPHYCMDR t sr i c d))) = False"
  by (cases sr; cases "cmdr_state (fst sr)")
     (simp_all add: SDPHYCMDR_def SDPHYCMDR_fsm_def pads_none_def Let_def)

lemma dataw_cmd_oe: "cmd_oe (dataw_pads (fst (SDPHYDATAW sc k c d))) = False"
  by (cases sc; cases "dataw_state (fst sc)")
     (simp_all add: SDPHYDATAW_def SDPHYDATAW_fsm_def pads_none_def Let_def
        split: prod.splits)

lemma datar_no_oe:
  "cmd_oe (datar_pads (fst (SDPHYDATAR t sr i c d))) = False \<and>
   data_oe (datar_pads (fst (SDPHYDATAR t sr i c d))) = False"
  by (cases sr; cases "datar_state (fst sr)")
     (simp_all add: SDPHYDATAR_def SDPHYDATAR_fsm_def pads_none_def Let_def)

lemma cmdw_next_idle:
  "cmdw_state s = CMDW_IDLE \<Longrightarrow> \<not> sink_valid k \<Longrightarrow> cmdw_state (snd (SDPHYCMDW s k)) = CMDW_IDLE"
  by (simp add: SDPHYCMDW_def)

lemma cmdw_done_iff: "cmdw_done (fst (SDPHYCMDW s k)) = (cmdw_state s = CMDW_IDLE \<and> \<not> sink_valid k)"
  by (cases "cmdw_state s") (simp_all add: SDPHYCMDW_def)

lemma cmdr_leaves_idle:
  "cmdr_state (fst sr) = CMDR_IDLE \<Longrightarrow>
   cmdr_state (fst (snd (SDPHYCMDR t sr i c d))) \<noteq> CMDR_IDLE \<Longrightarrow> cmdr_cmdw_done i"
  by (cases sr) (auto simp add: SDPHYCMDR_def SDPHYCMDR_fsm_def Let_def split: if_splits)


lemma cmd_exclusive_reset: "cmd_exclusive (sdphy_reset ct dt)"
  by (simp add: cmd_exclusive_def sdphy_reset_def cmdr_regs_reset_def)

lemma cmd_exclusive_step:
  assumes inv: "cmd_exclusive s"
    and seq: "cmdr_state (fst (phy_cmdr s)) \<noteq> CMDR_IDLE \<Longrightarrow> \<not> sink_valid (in_cmdw_sink x)"
  shows "cmd_exclusive (snd (SDPHY ct dt s x))"
proof (cases "cmdr_state (fst (phy_cmdr s)) = CMDR_IDLE")
  case True
  show ?thesis
  proof (cases "cmdr_state (fst (snd (SDPHYCMDR ct (phy_cmdr s)
      ((in_cmdr x)\<lparr>cmdr_cmdw_done := cmdw_done (fst (SDPHYCMDW (phy_cmdw s) (in_cmdw_sink x)))\<rparr>)
      (in_cmd_i x) (in_data_i x)))) = CMDR_IDLE")
    case True
    then show ?thesis
      by (simp add: cmd_exclusive_def SDPHY_def Let_def)
  next
    case False
    have "cmdr_cmdw_done ((in_cmdr x)\<lparr>cmdr_cmdw_done :=
        cmdw_done (fst (SDPHYCMDW (phy_cmdw s) (in_cmdw_sink x)))\<rparr>)"
      using cmdr_leaves_idle[OF True False] .
    then have "cmdw_state (phy_cmdw s) = CMDW_IDLE \<and> \<not> sink_valid (in_cmdw_sink x)"
      by (simp add: cmdw_done_iff)
    then have "cmdw_state (snd (SDPHYCMDW (phy_cmdw s) (in_cmdw_sink x))) = CMDW_IDLE"
      by (simp add: cmdw_next_idle)
    then show ?thesis
      by (simp add: cmd_exclusive_def SDPHY_def Let_def)
  qed
next
  case False
  then have "cmdw_state (phy_cmdw s) = CMDW_IDLE" "\<not> sink_valid (in_cmdw_sink x)"
    using inv seq by (simp_all add: cmd_exclusive_def)
  then have "cmdw_state (snd (SDPHYCMDW (phy_cmdw s) (in_cmdw_sink x))) = CMDW_IDLE"
    by (simp add: cmdw_next_idle)
  then show ?thesis
    by (simp add: cmd_exclusive_def SDPHY_def Let_def)
qed

lemma cmd_exclusive_run:
  "cmd_exclusive s \<Longrightarrow> sequenced ct dt s ins \<Longrightarrow>
   cmd_exclusive (run_state (SDPHY ct dt) s ins)"
proof (induction ins arbitrary: s)
  case Nil
  then show ?case by simp
next
  case (Cons x xs)
  have "cmd_exclusive (snd (SDPHY ct dt s x))"
    using Cons.prems by (intro cmd_exclusive_step) (auto split: if_splits)
  then show ?case
    using Cons.IH Cons.prems(2) by simp
qed

lemma sequenced_append:
  "sequenced ct dt s (xs @ ys) =
     (sequenced ct dt s xs \<and> sequenced ct dt (run_state (SDPHY ct dt) s xs) ys)"
  by (induction xs arbitrary: s) auto

lemma sdphy_drivers:
  assumes inv: "cmd_exclusive s"
  shows "cmd_oe_drivers (fst (SDPHY ct dt s x)) \<le> 1"
    and "data_oe_drivers (fst (SDPHY ct dt s x)) \<le> 1"
    and "cmd_oe (fst (SDPHY ct dt s x) ! 4) = False"
    and "data_oe (fst (SDPHY ct dt s x) ! 4) = False"
proof -
  show "cmd_oe_drivers (fst (SDPHY ct dt s x)) \<le> 1"
    using inv
    by (auto simp add: cmd_oe_drivers_def SDPHY_def Let_def cmdw_oe cmdr_oe dataw_cmd_oe
        datar_no_oe cmd_exclusive_def split: if_splits)
  show "data_oe_drivers (fst (SDPHY ct dt s x)) \<le> 1"
    by (simp add: data_oe_drivers_def SDPHY_def Let_def cmdw_data_oe cmdr_data_oe datar_no_oe)
  show "cmd_oe (fst (SDPHY ct dt s x) ! 4) = False"
    by (simp add: SDPHY_def Let_def datar_no_oe)
  show "data_oe (fst (SDPHY ct dt s x) ! 4) = False"
    by (simp add: SDPHY_def Let_def datar_no_oe)
qed

lemma sdpads_or:
  "length ms = 5 \<Longrightarrow>
   cmd_oe (sdpads ms) = (\<exists>p \<in> set ms. cmd_oe p) \<and>
   data_oe (sdpads ms) = (\<exists>p \<in> set ms. data_oe p) \<and>
   cmd_o (sdpads ms) = (\<exists>p \<in> set ms. cmd_o p) \<and>
   clk (sdpads ms) = (\<exists>p \<in> set ms. clk p) \<and>
   data_o (sdpads ms) = data_o (ms ! 0) OR data_o (ms ! 1) OR data_o (ms ! 2) OR
     data_o (ms ! 3) OR data_o (ms ! 4)"
proof -
  assume "length ms = 5"
  then obtain a b c d e where ms: "ms = [a, b, c, d, e]"
    by (auto simp add: length_Suc_conv numeral_eq_Suc)
  show ?thesis
    unfolding ms by (auto simp add: sdpads_def reduce_def or.assoc)
qed

lemma sdphy_outs_length: "length (fst (SDPHY ct dt s x)) = 5"
  by (simp add: SDPHY_def Let_def)


text \<open>
  Without an assumption on the controller two machines can drive the command line: a
  command read of one byte reaches its trailer state CLK8 in the cycle in which the
  command writer, given a byte one cycle earlier, is in WRITE.
\<close>

lemma sdphy_two_cmd_drivers:
  "cmd_oe_drivers (fst (SDPHY 250000 250000
      (run_state (SDPHY 250000 250000) (sdphy_reset 250000 250000) sdphy_overlap_trace)
      (sdphy_read_in True True))) = 2"
  by code_simp

text \<open>
  C9, amended: in every cycle of every run of the engine from reset in which the
  controller offers no command byte while the command reader is not idle, at most one
  of the four state machines asserts the output-enable of the command line and at
  most one that of the data lines; the data reader asserts neither; and the
  output-enables and the command output of the shared pads are the disjunction of
  the outputs of the five modules.
\<close>

theorem sdphy_single_driver:
  assumes seq: "sequenced ct dt (sdphy_reset ct dt) (ins @ [x])"
  shows "cmd_oe_drivers (fst (SDPHY ct dt (run_state (SDPHY ct dt) (sdphy_reset ct dt) ins) x)) \<le> 1 \<and>
         data_oe_drivers (fst (SDPHY ct dt (run_state (SDPHY ct dt) (sdphy_reset ct dt) ins) x)) \<le> 1 \<and>
         cmd_oe (fst (SDPHY ct dt (run_state (SDPHY ct dt) (sdphy_reset ct dt) ins) x) ! 4) = False \<and>
         data_oe (fst (SDPHY ct dt (run_state (SDPHY ct dt) (sdphy_reset ct dt) ins) x) ! 4) = False \<and>
         cmd_oe (sdpads (fst (SDPHY ct dt (run_state (SDPHY ct dt) (sdphy_reset ct dt) ins) x))) =
           (\<exists>p \<in> set (fst (SDPHY ct dt (run_state (SDPHY ct dt) (sdphy_reset ct dt) ins) x)). cmd_oe p) \<and>
         data_oe (sdpads (fst (SDPHY ct dt (run_state (SDPHY ct dt) (sdphy_reset ct dt) ins) x))) =
           (\<exists>p \<in> set (fst (SDPHY ct dt (run_state (SDPHY ct dt) (sdphy_reset ct dt) ins) x)). data_oe p) \<and>
         cmd_o (sdpads (fst (SDPHY ct dt (run_state (SDPHY ct dt) (sdphy_reset ct dt) ins) x))) =
           (\<exists>p \<in> set (fst (SDPHY ct dt (run_state (SDPHY ct dt) (sdphy_reset ct dt) ins) x)). cmd_o p)"
proof -
  let ?s = "run_state (SDPHY ct dt) (sdphy_reset ct dt) ins"
  have "sequenced ct dt (sdphy_reset ct dt) ins"
    using seq by (simp add: sequenced_append)
  then have inv: "cmd_exclusive ?s"
    using cmd_exclusive_reset by (rule cmd_exclusive_run[rotated])
  note d = sdphy_drivers[OF inv, of ct dt x]
  note o = sdpads_or[OF sdphy_outs_length, of ct dt ?s x]
  from d(1) d(2) d(3) d(4) o[THEN conjunct1] o[THEN conjunct2, THEN conjunct1]
    o[THEN conjunct2, THEN conjunct2, THEN conjunct1]
  show ?thesis
    by (intro conjI) assumption+
qed

theorem sdphy_single_driver_witness:
  "cmd_oe_drivers (fst (SDPHY 250000 250000
      (run_state (SDPHY 250000 250000) (sdphy_reset 250000 250000) [sdphy_cmd_in])
      sdphy_cmd_in)) \<le> 1 \<and>
   data_oe_drivers (fst (SDPHY 250000 250000
      (run_state (SDPHY 250000 250000) (sdphy_reset 250000 250000) [sdphy_cmd_in])
      sdphy_cmd_in)) \<le> 1"
proof -
  have h: "sequenced 250000 250000 (sdphy_reset 250000 250000) ([sdphy_cmd_in] @ [sdphy_cmd_in])"
    by code_simp
  note T = sdphy_single_driver[OF h]
  from T[THEN conjunct1] T[THEN conjunct2, THEN conjunct1] show ?thesis
    by (intro conjI) assumption+
qed

section \<open>The round trip of a command frame\<close>

lemma loopback_items_append:
  "loopback_items t n lr s (xs @ ys) =
     loopback_items t n lr s xs @
       loopback_items t n lr (run_state (loopback_cycle t n lr) s xs) ys"
  by (simp add: loopback_items_def run_outs_append)

lemma loopback_items_Cons:
  "loopback_items t n lr s (x # xs) =
     fst (loopback_cycle t n lr s x) @ loopback_items t n lr (snd (loopback_cycle t n lr s x)) xs"
  by (simp add: loopback_items_def)

lemma loopback_items_Nil: "loopback_items t n lr s [] = []"
  by (simp add: loopback_items_def)

lemma bit_set_slice1:
  "k < 8 \<Longrightarrow> lo < 8 \<Longrightarrow>
   bit (set_slice lo (Suc 0) (of_bool x) cd) k = (if k = lo then x else bit cd k)"
  by (auto simp add: set_slice_def bit_simps)

lemma pack8:
  "set_slice 0 (Suc 0) (of_bool (bit b 0)) (set_slice (Suc 0) (Suc 0) (of_bool (bit b (Suc 0)))
     (set_slice 2 (Suc 0) (of_bool (bit b 2)) (set_slice 3 (Suc 0) (of_bool (bit b 3))
       (set_slice 4 (Suc 0) (of_bool (bit b 4)) (set_slice 5 (Suc 0) (of_bool (bit b 5))
         (set_slice 6 (Suc 0) (of_bool (bit b 6))
           (set_slice 7 (Suc 0) (of_bool (bit b 7)) cd))))))) = b"
  (is "?w = b")
proof (rule bit_word_eqI)
  fix k assume "k < LENGTH(8)"
  then have k: "k < 8" by simp
  then consider "k = 0" | "k = 1" | "k = 2" | "k = 3" | "k = 4" | "k = 5" | "k = 6" | "k = 7"
    by linarith
  then show "bit ?w k = bit b k"
    by cases (simp_all add: bit_set_slice1 split del: split_of_bool)
qed

lemma cmdr_in_data: "pads_in_data cmdr_cfg x d = of_bool x"
  by (cases x) (simp_all add: pads_in_data_def cmdr_cfg_def)

lemma cmdr_start: "start cmdr_cfg x d = (\<not> x)"
  by (cases x) (simp_all add: start_def cmdr_in_data)

lemma cmdr_cfg_fields: "skip_start_bit cmdr_cfg = False" "data_width cmdr_cfg = 1"
  by (simp_all add: cmdr_cfg_def)

lemmas loopback_defs = loopback_cycle_def request_in_def SDPHYCMDR_def SDPHYCMDR_fsm_def
  Let_def source_none_def SDPHYR_def cmdr_start cmdr_in_data
  converter_step_def converter_sink_ready_def buffer_step_def buffer_sink_ready_def
  sdphyr_source_valid_def sdphyr_source_data_def cmdr_cfg_fields ok_item_def

lemma loop_wait_step:
  "t \<noteq> 0 \<Longrightarrow> dm < 8 \<Longrightarrow>
   loopback_cycle tr n lr (cmdr_mk CMDR_WAIT t c dm sv cd bv bd, True) x =
     ([], (cmdr_mk (if bv then CMDR_CMD else CMDR_WAIT) (t - 1) c
        (if sv \<and> bv then dm else if dm = 7 then 0 else dm + 1)
        (if sv \<and> bv then sv else dm = 7)
        (if sv \<and> bv then cd else set_slice (7 - dm) 1 (of_bool x) cd)
        (if bv then bv else sv)
        (if bv then bd else cd), True))"
  by (simp add: cmdr_mk_def loopback_defs)

lemma loop_cmd_step:
  "t \<noteq> 0 \<Longrightarrow> dm < 8 \<Longrightarrow>
   loopback_cycle tr n lr (cmdr_mk CMDR_CMD t c dm sv cd bv bd, True) x =
     (if bv then [ok_item (c = n - 1) bd] else [],
      (cmdr_mk (if bv \<and> c = n - 1 then (if lr then CMDR_CLK8 else CMDR_IDLE) else CMDR_CMD)
        (t - 1)
        (if bv then (if c = n - 1 \<and> lr then 0 else c + 1) else c)
        (if dm = 7 then 0 else dm + 1)
        (dm = 7)
        (set_slice (7 - dm) 1 (of_bool x) cd)
        sv
        cd, \<not> (bv \<and> c = n - 1)))"
  by (simp add: cmdr_mk_def loopback_defs)

lemma loop_idle_step:
  "loopback_cycle tr n lr ((cmdr_regs_reset tr, sdphyr_reset), True) True =
     ([], (cmdr_quiet tr True, True))"
  by (simp add: cmdr_quiet_def cmdr_regs_reset_def loopback_defs sdphyr_reset_def)

lemma loop_reset_step:
  "t \<noteq> 0 \<Longrightarrow>
   loopback_cycle tr n lr (cmdr_quiet t True, True) x = ([], (cmdr_quiet (t - 1) False, True))"
  by (simp add: cmdr_quiet_def loopback_defs sdphyr_reset_def)

lemma loop_quiet_step:
  "t \<noteq> 0 \<Longrightarrow>
   loopback_cycle tr n lr (cmdr_quiet t False, True) True =
     ([], (cmdr_quiet (t - 1) False, True))"
  by (simp add: cmdr_quiet_def loopback_defs sdphyr_reset_def)

lemma loop_start_step:
  "t \<noteq> 0 \<Longrightarrow>
   loopback_cycle tr n lr (cmdr_quiet t False, True) False =
     ([], (cmdr_mk CMDR_WAIT (t - 1) 0 1 False (set_slice 7 1 0 0) False 0, True))"
  by (simp add: cmdr_quiet_def cmdr_mk_def loopback_defs sdphyr_reset_def)

lemma msb_bits_unfold:
  "msb_bits r = [bit r 7, bit r 6, bit r 5, bit r 4, bit r 3, bit r 2, bit r 1, bit r 0]"
  by (simp add: msb_bits_def upt_rec)

lemma u32_sub_ne: "k < unat (t::u32) \<Longrightarrow> t - of_nat k \<noteq> 0"
proof
  assume k: "k < unat t" and e: "t - of_nat k = 0"
  then have "t = of_nat k" by simp
  then have "unat t = unat (of_nat k :: u32)" by simp
  also have "\<dots> \<le> k" by (simp add: unat_of_nat)
  finally show False using k by simp
qed

lemma u32_ne8:
  assumes "8 \<le> unat (t::u32)"
  shows "t \<noteq> 0" "t - 1 \<noteq> 0" "t - 2 \<noteq> 0" "t - 3 \<noteq> 0" "t - 4 \<noteq> 0" "t - 5 \<noteq> 0"
    "t - 6 \<noteq> 0" "t - 7 \<noteq> 0"
  using u32_sub_ne[of 0 t] u32_sub_ne[of 1 t] u32_sub_ne[of 2 t] u32_sub_ne[of 3 t]
    u32_sub_ne[of 4 t] u32_sub_ne[of 5 t] u32_sub_ne[of 6 t] u32_sub_ne[of 7 t] assms
  by simp_all

lemma u32_ne3:
  assumes "3 \<le> unat (t::u32)"
  shows "t \<noteq> 0" "t - 1 \<noteq> 0" "t - 2 \<noteq> 0"
  using u32_sub_ne[of 0 t] u32_sub_ne[of 1 t] u32_sub_ne[of 2 t] assms
  by simp_all

lemma u32_sub8: "8 \<le> unat (t::u32) \<Longrightarrow> unat (t - 8) = unat t - 8"
  by (simp add: unat_sub_if' word_le_nat_alt)

lemma loop_block_cmd:
  assumes t: "8 \<le> unat t" and nl: "c \<noteq> n - 1"
  shows "loopback_items tr n lr (cmdr_mk CMDR_CMD t c 0 True b False bd, True)
           (msb_bits r) = [ok_item False b] \<and>
         (\<exists>bd'. run_state (loopback_cycle tr n lr) (cmdr_mk CMDR_CMD t c 0 True b False bd, True)
           (msb_bits r) = (cmdr_mk CMDR_CMD (t - 8) (c + 1) 0 True r False bd', True))"
  using u32_ne8[OF t] nl
  by (simp add: msb_bits_unfold loopback_items_Cons loopback_items_Nil loop_cmd_step pack8
      split del: split_of_bool) blast

lemma loop_block_wait:
  assumes t: "8 \<le> unat t" and nl: "0 \<noteq> n - 1"
  shows "loopback_items tr n lr (cmdr_mk CMDR_WAIT t 0 0 True b False bd, True)
           (msb_bits r) = [ok_item False b] \<and>
         (\<exists>bd'. run_state (loopback_cycle tr n lr) (cmdr_mk CMDR_WAIT t 0 0 True b False bd, True)
           (msb_bits r) = (cmdr_mk CMDR_CMD (t - 8) (0 + 1) 0 True r False bd', True))"
  using u32_ne8[OF t] nl
  by (simp add: msb_bits_unfold loopback_items_Cons loopback_items_Nil loop_cmd_step
      loop_wait_step pack8 split del: split_of_bool) blast
lemma pack8_start:
  assumes "\<not> bit b 7"
  shows "set_slice 0 (Suc 0) (of_bool (bit b 0)) (set_slice (Suc 0) (Suc 0) (of_bool (bit b (Suc 0)))
     (set_slice 2 (Suc 0) (of_bool (bit b 2)) (set_slice 3 (Suc 0) (of_bool (bit b 3))
       (set_slice 4 (Suc 0) (of_bool (bit b 4)) (set_slice 5 (Suc 0) (of_bool (bit b 5))
         (set_slice 6 (Suc 0) (of_bool (bit b 6))
           (set_slice 7 (Suc 0) 0 0))))))) = b"
proof -
  have "(of_bool (bit b 7) :: u8) = 0"
    using assms by simp
  then show ?thesis
    using pack8[of b 0] by (simp only:)
qed

lemma loop_quiet_run:
  "k \<le> unat t \<Longrightarrow>
   loopback_items tr n lr (cmdr_quiet t False, True) (replicate k True) = [] \<and>
   run_state (loopback_cycle tr n lr) (cmdr_quiet t False, True) (replicate k True) =
     (cmdr_quiet (t - of_nat k) False, True)"
proof (induction k arbitrary: t)
  case 0
  then show ?case by (simp add: loopback_items_Nil)
next
  case (Suc k)
  have t0: "t \<noteq> 0"
    using Suc.prems by (auto simp add: unat_0_iff)
  have "k \<le> unat (t - 1)"
    using Suc.prems t0 by (simp add: u32_dec)
  then have ih: "loopback_items tr n lr (cmdr_quiet (t - 1) False, True) (replicate k True) = []"
    "run_state (loopback_cycle tr n lr) (cmdr_quiet (t - 1) False, True) (replicate k True) =
       (cmdr_quiet (t - 1 - of_nat k) False, True)"
    using Suc.IH[of "t - 1"] by simp_all
  show ?case
    using ih by (simp add: loopback_items_Cons loop_quiet_step[OF t0] diff_diff_eq)
qed

lemma loop_block0:
  assumes t: "8 \<le> unat t" and s: "\<not> bit b 7"
  shows "loopback_items tr n lr (cmdr_quiet t False, True) (msb_bits b) = [] \<and>
         (\<exists>bd. run_state (loopback_cycle tr n lr) (cmdr_quiet t False, True) (msb_bits b) =
           (cmdr_mk CMDR_WAIT (t - 8) 0 0 True b False bd, True))"
proof -
  have m: "msb_bits b = [False, bit b 6, bit b 5, bit b 4, bit b 3, bit b 2, bit b 1, bit b 0]"
    using s by (simp add: msb_bits_unfold)
  show ?thesis
    unfolding m using u32_ne8[OF t]
    by (simp add: loopback_items_Cons loopback_items_Nil loop_start_step loop_wait_step
        pack8_start[OF s] split del: split_of_bool) blast
qed

lemma cmdr_mk_state: "cmdr_state (fst (cmdr_mk st t c dm sv cd bv bd)) = st"
  by (simp add: cmdr_mk_def)

lemma loop_final_wait:
  assumes t: "3 \<le> unat t" and nl: "0 = n - 1"
  shows "loopback_items tr n lr (cmdr_mk CMDR_WAIT t 0 0 True b False bd, True)
           [True, True, True] = [ok_item True b] \<and>
         (\<exists>sr. run_state (loopback_cycle tr n lr) (cmdr_mk CMDR_WAIT t 0 0 True b False bd, True)
           [True, True, True] = (sr, False) \<and>
           (cmdr_state (fst sr) = CMDR_IDLE \<or> cmdr_state (fst sr) = CMDR_CLK8))"
  using u32_ne3[OF t] nl[symmetric]
  by (simp add: loopback_items_Cons loopback_items_Nil loop_cmd_step loop_wait_step
      cmdr_mk_state split del: split_of_bool)

lemma loop_final_cmd:
  assumes t: "3 \<le> unat t" and nl: "c = n - 1"
  shows "loopback_items tr n lr (cmdr_mk CMDR_CMD t c 0 True b False bd, True)
           [True, True] = [ok_item True b] \<and>
         (\<exists>sr. run_state (loopback_cycle tr n lr) (cmdr_mk CMDR_CMD t c 0 True b False bd, True)
           [True, True] = (sr, False) \<and>
           (cmdr_state (fst sr) = CMDR_IDLE \<or> cmdr_state (fst sr) = CMDR_CLK8))"
  using u32_ne3[OF t] nl[symmetric]
  by (simp add: loopback_items_Cons loopback_items_Nil loop_cmd_step cmdr_mk_state
      split del: split_of_bool)

lemma loop_done_step:
  assumes "cmdr_state (fst sr) = CMDR_IDLE \<or> cmdr_state (fst sr) = CMDR_CLK8"
  shows "fst (loopback_cycle tr n lr (sr, False) x) = [] \<and>
         snd (snd (loopback_cycle tr n lr (sr, False) x)) = False \<and>
         (cmdr_state (fst (fst (snd (loopback_cycle tr n lr (sr, False) x)))) = CMDR_IDLE \<or>
          cmdr_state (fst (fst (snd (loopback_cycle tr n lr (sr, False) x)))) = CMDR_CLK8)"
proof -
  obtain s r where sr: "sr = (s, r)" by (cases sr)
  show ?thesis
    using assms unfolding sr
    by (auto simp add: loopback_cycle_def request_in_def SDPHYCMDR_def SDPHYCMDR_fsm_def
        Let_def source_none_def)
qed

lemma loop_done_run:
  "cmdr_state (fst sr) = CMDR_IDLE \<or> cmdr_state (fst sr) = CMDR_CLK8 \<Longrightarrow>
   loopback_items tr n lr (sr, False) xs = []"
proof (induction xs arbitrary: sr)
  case Nil
  then show ?case by (simp add: loopback_items_Nil)
next
  case (Cons x xs)
  obtain sr' p where e: "snd (loopback_cycle tr n lr (sr, False) x) = (sr', p)"
    by (cases "snd (loopback_cycle tr n lr (sr, False) x)")
  have d: "fst (loopback_cycle tr n lr (sr, False) x) = []" "p = False"
    "cmdr_state (fst sr') = CMDR_IDLE \<or> cmdr_state (fst sr') = CMDR_CLK8"
    using loop_done_step[OF Cons.prems, of tr n lr x] e by simp_all
  show ?case
    using Cons.IH[OF d(3)] d(1,2) e by (simp add: loopback_items_Cons)
qed
lemma u8_last_iff:
  assumes "unat (c::u8) + k + 1 = unat (n::u8)"
  shows "(c = n - 1) = (k = 0)"
proof -
  have n0: "n \<noteq> 0"
    using assms by (auto simp add: unat_0_iff)
  have "unat (n - 1) = unat n - 1"
    using n0 by (simp add: unat_minus_one)
  then have "unat (n - 1) = unat c + k"
    using assms by simp
  then show ?thesis
    by (auto simp add: word_unat_eq_iff)
qed

lemma loop_finish:
  assumes "st = CMDR_WAIT \<or> st = CMDR_CMD"
    and "st = CMDR_WAIT \<longrightarrow> c = 0"
    and "unat c + length rs + 1 = unat n"
    and "8 * length rs + 3 \<le> unat t"
    and "3 \<le> K"
  shows "loopback_items tr n lr (cmdr_mk st t c 0 True b False bd, True)
           (concat (map msb_bits rs) @ replicate K True) = ok_items (b # rs)"
  using assms
proof (induction rs arbitrary: st t c b bd)
  case Nil
  have last: "c = n - 1"
    using u8_last_iff[of c 0 n] Nil.prems(3) by simp
  have t3: "3 \<le> unat t"
    using Nil.prems(4) by simp
  obtain K' where K: "K = 3 + K'"
    using Nil.prems(5) by (auto simp add: le_iff_add)
  have r3: "replicate K True = [True, True, True] @ replicate K' True"
    unfolding K replicate_add by (simp add: numeral_3_eq_3)
  have r2: "replicate K True = [True, True] @ replicate (Suc K') True"
    unfolding K replicate_add by (simp add: numeral_3_eq_3)
  show ?case
  proof (cases "st = CMDR_WAIT")
    case True
    then have c0: "c = 0" using Nil.prems(2) by simp
    have nl: "0 = n - 1" using last c0 by simp
    obtain sr where
      i: "loopback_items tr n lr (cmdr_mk CMDR_WAIT t 0 0 True b False bd, True)
            [True, True, True] = [ok_item True b]"
      and s: "run_state (loopback_cycle tr n lr) (cmdr_mk CMDR_WAIT t 0 0 True b False bd, True)
            [True, True, True] = (sr, False)"
      and d: "cmdr_state (fst sr) = CMDR_IDLE \<or> cmdr_state (fst sr) = CMDR_CLK8"
      using loop_final_wait[OF t3 nl, of tr lr b bd] by blast
    have "loopback_items tr n lr (cmdr_mk CMDR_WAIT t 0 0 True b False bd, True)
        ([True, True, True] @ replicate K' True) = [ok_item True b]"
      by (simp only: loopback_items_append i s loop_done_run[OF d] append_Nil2)
    then show ?thesis
      unfolding True c0 r3 by (simp add: ok_items_def)
  next
    case False
    then have st: "st = CMDR_CMD" using Nil.prems(1) by simp
    obtain sr where
      i: "loopback_items tr n lr (cmdr_mk CMDR_CMD t c 0 True b False bd, True)
            [True, True] = [ok_item True b]"
      and s: "run_state (loopback_cycle tr n lr) (cmdr_mk CMDR_CMD t c 0 True b False bd, True)
            [True, True] = (sr, False)"
      and d: "cmdr_state (fst sr) = CMDR_IDLE \<or> cmdr_state (fst sr) = CMDR_CLK8"
      using loop_final_cmd[OF t3 last, of tr lr b bd] by blast
    have "loopback_items tr n lr (cmdr_mk CMDR_CMD t c 0 True b False bd, True)
        ([True, True] @ replicate (Suc K') True) = [ok_item True b]"
      by (simp only: loopback_items_append i s loop_done_run[OF d] append_Nil2)
    then show ?thesis
      unfolding st r2 by (simp add: ok_items_def)
  qed
next
  case (Cons r rs)
  have nl: "c \<noteq> n - 1"
    using u8_last_iff[of c "length (r # rs)" n] Cons.prems(3) by simp
  have t8: "8 \<le> unat t"
    using Cons.prems(4) by simp
  have c1: "unat (c + 1) = unat c + 1"
    using Cons.prems(3) u8_le_255[of n] by (intro u8_suc) simp
  have inv: "unat (c + 1) + length rs + 1 = unat n"
    using Cons.prems(3) c1 by simp
  have tm: "8 * length rs + 3 \<le> unat (t - 8)"
    using Cons.prems(4) u32_sub8[OF t8] by simp
  have blk: "loopback_items tr n lr (cmdr_mk st t c 0 True b False bd, True) (msb_bits r) =
      [ok_item False b] \<and>
    (\<exists>bd'. run_state (loopback_cycle tr n lr) (cmdr_mk st t c 0 True b False bd, True)
       (msb_bits r) = (cmdr_mk CMDR_CMD (t - 8) (c + 1) 0 True r False bd', True))"
  proof (cases "st = CMDR_WAIT")
    case True
    then have c0: "c = 0" using Cons.prems(2) by simp
    show ?thesis
      unfolding True c0 using nl c0 by (intro loop_block_wait[OF t8]) simp
  next
    case False
    then have st: "st = CMDR_CMD" using Cons.prems(1) by simp
    show ?thesis
      unfolding st by (rule loop_block_cmd[OF t8 nl])
  qed
  then obtain bd' where
    i: "loopback_items tr n lr (cmdr_mk st t c 0 True b False bd, True) (msb_bits r) =
      [ok_item False b]"
    and s: "run_state (loopback_cycle tr n lr) (cmdr_mk st t c 0 True b False bd, True)
       (msb_bits r) = (cmdr_mk CMDR_CMD (t - 8) (c + 1) 0 True r False bd', True)"
    by blast
  have ih: "loopback_items tr n lr (cmdr_mk CMDR_CMD (t - 8) (c + 1) 0 True r False bd', True)
      (concat (map msb_bits rs) @ replicate K True) = ok_items (r # rs)"
    using inv tm Cons.prems(5) by (intro Cons.IH) simp_all
  have e: "concat (map msb_bits (r # rs)) @ replicate K True =
      msb_bits r @ (concat (map msb_bits rs) @ replicate K True)"
    by simp
  have "loopback_items tr n lr (cmdr_mk st t c 0 True b False bd, True)
      (msb_bits r @ (concat (map msb_bits rs) @ replicate K True)) =
      [ok_item False b] @ ok_items (r # rs)"
    by (simp only: loopback_items_append[of _ _ _ _ "msb_bits r"] i s ih)
  then show ?case
    unfolding e by (simp add: ok_items_def)
qed

lemma cmdw_expected_append:
  "cmdw_expected k (xs @ ys) = cmdw_expected k xs @ cmdw_expected k ys"
  by (simp add: cmdw_expected_def)

lemma cmdw_expected_plain:
  "cmdw_expected k (map (\<lambda>(g, b). (g, b, False)) gbs) = concat (map msb_bits (map snd gbs))"
  by (induction gbs) (auto simp add: cmdw_expected_def)

lemma cmdw_frame:
  assumes "cmdw_cycles (frame_queue gbs g b l) \<le> m"
  shows "cmdw_sim m (frame_queue gbs g b l) =
     concat (map msb_bits (map snd gbs @ [b])) @ (if l then replicate 256 True else [])"
proof -
  have "cmdw_sim m (frame_queue gbs g b l) = cmdw_expected 256 (frame_queue gbs g b l)"
    unfolding cmdw_sim_def
    by (rule cmdw_run_queue) (simp_all add: cmdw_reset_def assms)
  also have "\<dots> = concat (map msb_bits (map snd gbs @ [b])) @
      (if l then replicate 256 True else [])"
    unfolding frame_queue_def cmdw_expected_append cmdw_expected_plain
    by (simp add: cmdw_expected_def)
  finally show ?thesis .
qed
lemma u32_sub_nat: "k \<le> unat (t::u32) \<Longrightarrow> unat (t - of_nat k) = unat t - k"
proof -
  assume k: "k \<le> unat t"
  have lt: "k < 2 ^ 32"
    using k unsigned_less[of t, where 'a = nat] by simp
  have uk: "unat (of_nat k :: u32) = k"
    using lt by (simp add: unat_of_nat)
  have "(of_nat k :: u32) \<le> t"
    using k uk by (simp add: word_le_nat_alt)
  then show ?thesis
    using uk by (simp add: unat_sub)
qed

text \<open>
  C8: the writer sends a frame of at most 255 bytes \<open>map snd gbs @ [b]\<close>, each byte
  valid after its wait and only the final one possibly marked \<open>last\<close>, and runs until
  it is idle again (\<open>m\<close> cycles).  The first byte has its most significant bit clear:
  it is the start bit.  The line it drove, as the card sees it, is played back into
  the command reader, which starts from reset with a request for as many bytes as
  the frame has, after \<open>k0\<close> idle (high) samples, two at least, while the reader
  takes the request and resets its bit reader, and followed by \<open>k1\<close> idle samples,
  three at least, which move the final byte through the converter and the buffer.
  The timeout counter holds for the whole response.  Then the result stream
  receives exactly the bytes of the frame, in order, with status \<open>OK\<close>, and \<open>last\<close> on
  the final one only.
\<close>

theorem cmd_round_trip:
  assumes start_bit: "\<not> bit (hd (map snd gbs @ [b])) 7"
    and len: "length gbs < 255"
    and wr: "cmdw_cycles (frame_queue gbs g b l) \<le> m"
    and k0: "2 \<le> k0"
    and k1: "3 \<le> k1"
    and tmo: "k0 + 8 * (length gbs + 1) + 2 \<le> unat treset"
  shows "loopback_items treset (of_nat (length gbs + 1)) lr
           ((cmdr_regs_reset treset, sdphyr_reset), True)
           (replicate k0 True @ cmdw_sim m (frame_queue gbs g b l) @ replicate k1 True) =
         ok_items (map snd gbs @ [b])"
proof -
  let ?n = "of_nat (length gbs + 1) :: u8"
  let ?C = "loopback_cycle treset ?n lr"
  let ?I = "loopback_items treset ?n lr"
  obtain b1 rs where bs: "map snd gbs @ [b] = b1 # rs"
    by (cases "map snd gbs @ [b]") simp_all
  have lrs: "length rs = length gbs"
  proof -
    have "length (map snd gbs @ [b]) = length (b1 # rs)" by (simp only: bs)
    then show ?thesis by simp
  qed
  have sb: "\<not> bit b1 7"
    using start_bit unfolding bs by simp
  obtain j where j: "k0 = 2 + j"
    using k0 by (auto simp add: le_iff_add)
  define K where "K = (if l then 256 else 0) + k1"
  have K3: "3 \<le> K"
    using k1 by (simp add: K_def)
  define rest where "rest = concat (map msb_bits rs) @ replicate K True"
  have line: "replicate k0 True @ cmdw_sim m (frame_queue gbs g b l) @ replicate k1 True =
      [True] @ [True] @ replicate j True @ msb_bits b1 @ rest"
    unfolding cmdw_frame[OF wr] bs j rest_def K_def replicate_add
    by (simp add: numeral_2_eq_2)
  have t0: "treset \<noteq> 0"
    using tmo by (auto simp add: unat_0_iff)
  have u1: "unat (treset - 1) = unat treset - 1"
    using t0 by (rule u32_dec)
  define t1 where "t1 = treset - 1 - of_nat j"
  have jl: "j \<le> unat (treset - 1)"
    using tmo j u1 by simp
  have ut1: "unat t1 = unat treset - 1 - j"
    unfolding t1_def using u32_sub_nat[OF jl] u1 by simp
  have t18: "8 \<le> unat t1"
    using tmo j ut1 by simp
  have s1: "?C ((cmdr_regs_reset treset, sdphyr_reset), True) True =
      ([], (cmdr_quiet treset True, True))"
    by (rule loop_idle_step)
  have s2: "?C (cmdr_quiet treset True, True) True = ([], (cmdr_quiet (treset - 1) False, True))"
    by (rule loop_reset_step[OF t0])
  have s3: "?I (cmdr_quiet (treset - 1) False, True) (replicate j True) = []"
    "run_state ?C (cmdr_quiet (treset - 1) False, True) (replicate j True) =
       (cmdr_quiet t1 False, True)"
    unfolding t1_def using loop_quiet_run[OF jl, of treset ?n lr] by simp_all
  obtain bd where
    s4: "?I (cmdr_quiet t1 False, True) (msb_bits b1) = []"
      "run_state ?C (cmdr_quiet t1 False, True) (msb_bits b1) =
         (cmdr_mk CMDR_WAIT (t1 - 8) 0 0 True b1 False bd, True)"
    using loop_block0[OF t18 sb, of treset ?n lr] by blast
  have un: "unat ?n = length gbs + 1"
    using len by (simp only: unat_of_nat) simp
  have inv: "unat (0::u8) + length rs + 1 = unat ?n"
    unfolding un lrs by simp
  have tm: "8 * length rs + 3 \<le> unat (t1 - 8)"
    using tmo j ut1 u32_sub8[OF t18] lrs by simp
  have s5: "?I (cmdr_mk CMDR_WAIT (t1 - 8) 0 0 True b1 False bd, True) rest = ok_items (b1 # rs)"
    unfolding rest_def
    by (rule loop_finish[OF _ _ inv tm K3]) simp_all
  have "?I ((cmdr_regs_reset treset, sdphyr_reset), True)
      ([True] @ [True] @ replicate j True @ msb_bits b1 @ rest) = ok_items (b1 # rs)"
    by (simp only: loopback_items_append loopback_items_Cons loopback_items_Nil
        run_state.simps s1 s2 s3 s4 s5 fst_conv snd_conv append_Nil append_Nil2)
  then show ?thesis
    unfolding line bs .
qed

theorem cmd_round_trip_witness:
  "loopback_items 250000 6 False ((cmdr_regs_reset 250000, sdphyr_reset), True)
     (replicate 2 True @
      cmdw_sim 400 (frame_queue [(0, 0x40), (0, 0), (0, 0), (0, 0), (0, 0)] 0 0x95 True) @
      replicate 3 True) =
   [ok_item False 0x40, ok_item False 0, ok_item False 0, ok_item False 0, ok_item False 0,
    ok_item True 0x95]"
  using cmd_round_trip[of "[(0, 0x40), (0, 0), (0, 0), (0, 0), (0, 0)]" "0x95" 0 True 400 2 3
      250000 False]
  by (simp add: frame_queue_def ok_items_def)

end
